theory Spec2Isabelle
  imports Complex_Main "HOL-Library.Word" "HOL-Library.Monad_Syntax"
begin

unbundle bit_operations_syntax

section \<open>Machine types\<close>

text \<open>
  The kernels of \<^verbatim>\<open>volk_32fc_s32f_deinterleave_real_16i.h\<close> and
  \<^verbatim>\<open>volk_32fc_x2_dot_prod_32fc.h\<close> work on \<^verbatim>\<open>float\<close>, \<^verbatim>\<open>int16_t\<close> and
  \<^verbatim>\<open>unsigned int\<close>.  A \<^verbatim>\<open>float\<close> is its IEEE-754 binary32 bit pattern; the
  arithmetic on it is round-to-nearest, ties-to-even (the default rounding mode), every
  operation rounded once to single precision and never contracted.  NaN payloads are not
  modelled: every operation that yields a NaN yields the one quiet NaN \<open>f_qnan\<close>.
\<close>

type_synonym float = "32 word"
type_synonym int16_t = "16 word"
type_synonym int32_t = "32 word"
type_synonym uint = "32 word"

text \<open>A complex sample \<^verbatim>\<open>lv_32fc_t\<close>: the pair (real, imaginary).\<close>

type_synonym lv_32fc_t = "float \<times> float"

subsection \<open>binary32: fields, unpacking and rounding\<close>

text \<open>Bit 31 is the sign, bits 30..23 the biased exponent, bits 22..0 the fraction.\<close>

definition f_sign :: "float \<Rightarrow> bool" where
  "f_sign x = (2 ^ 31 \<le> unat x)"

definition f_expo :: "float \<Rightarrow> nat" where
  "f_expo x = (unat x div 2 ^ 23) mod 256"

definition f_frac :: "float \<Rightarrow> nat" where
  "f_frac x = unat x mod 2 ^ 23"

definition f_pack :: "bool \<Rightarrow> nat \<Rightarrow> nat \<Rightarrow> float" where
  "f_pack s e f = of_nat ((if s then 2 ^ 31 else 0) + e * 2 ^ 23 + f)"

definition f_qnan :: float where
  "f_qnan = 0x7FC00000"

definition f_zero :: float where
  "f_zero = 0"

definition f_inf :: "bool \<Rightarrow> float" where
  "f_inf s = f_pack s 255 0"

text \<open>
  The value of a float: a NaN, an infinity with its sign, or the finite number
  \<open>(-1)^s * m * 2^e\<close> as \<open>FFin s m e\<close> (zeros and subnormals have \<open>e = -149\<close>).
\<close>

datatype fval = FNaN | FInf bool | FFin bool nat int

definition f_unpack :: "float \<Rightarrow> fval" where
  "f_unpack x =
     (if f_expo x = 255 then (if f_frac x = 0 then FInf (f_sign x) else FNaN)
      else if f_expo x = 0 then FFin (f_sign x) (f_frac x) (- 149)
      else FFin (f_sign x) (2 ^ 23 + f_frac x) (int (f_expo x) - 150))"

text \<open>The number of binary digits of a natural number.\<close>

fun nbits :: "nat \<Rightarrow> nat" where
  "nbits n = (if n = 0 then 0 else Suc (nbits (n div 2)))"

declare nbits.simps [simp del]

text \<open>\<open>m / 2^k\<close> rounded to the nearest integer, ties to the even one.\<close>

definition rne_shift :: "nat \<Rightarrow> nat \<Rightarrow> nat" where
  "rne_shift m k =
     (let q = m div 2 ^ k; r = m mod 2 ^ k
      in if 2 ^ k < 2 * r \<or> (2 * r = 2 ^ k \<and> odd q) then q + 1 else q)"

text \<open>
  Rounding of the exact value \<open>(-1)^s * m * 2^e\<close> to binary32: \<open>t\<close> is the exponent
  of the unit in the last place of the result (24 significant bits, not below the
  subnormal exponent -149); a carry out of the 24 bits renormalises; beyond the largest
  exponent the result is an infinity.
\<close>

definition f_round :: "bool \<Rightarrow> nat \<Rightarrow> int \<Rightarrow> float" where
  "f_round s m e =
     (let t = max (e + int (nbits m) - 24) (- 149);
          q = (if t \<le> e then m * 2 ^ nat (e - t) else rne_shift m (nat (t - e)));
          q' = (if q = 2 ^ 24 then 2 ^ 23 else q);
          t' = (if q = 2 ^ 24 then t + 1 else t)
      in if q' < 2 ^ 23 then f_pack s 0 q'
         else if 104 < t' then f_inf s
         else f_pack s (nat (t' + 150)) (q' - 2 ^ 23))"

subsection \<open>binary32: arithmetic\<close>

definition fneg :: "float \<Rightarrow> float" where
  "fneg x = x XOR 0x80000000"

definition fmul :: "float \<Rightarrow> float \<Rightarrow> float" where
  "fmul x y =
     (case f_unpack x of
        FNaN \<Rightarrow> f_qnan
      | FInf s \<Rightarrow>
          (case f_unpack y of
             FNaN \<Rightarrow> f_qnan
           | FInf t \<Rightarrow> f_inf (s \<noteq> t)
           | FFin t n d \<Rightarrow> if n = 0 then f_qnan else f_inf (s \<noteq> t))
      | FFin s m e \<Rightarrow>
          (case f_unpack y of
             FNaN \<Rightarrow> f_qnan
           | FInf t \<Rightarrow> if m = 0 then f_qnan else f_inf (s \<noteq> t)
           | FFin t n d \<Rightarrow> f_round (s \<noteq> t) (m * n) (e + d)))"

text \<open>
  The exact sum of two finite values, rounded once.  An exact zero sum is \<open>+0\<close> unless
  both summands are negative (then both are \<open>-0\<close>).
\<close>

definition with_sign :: "bool \<Rightarrow> nat \<Rightarrow> int" where
  "with_sign s m = (if s then - int m else int m)"

definition f_sum :: "bool \<Rightarrow> nat \<Rightarrow> int \<Rightarrow> bool \<Rightarrow> nat \<Rightarrow> int \<Rightarrow> float" where
  "f_sum s m e t n d =
     (let c = min e d;
          v = with_sign s (m * 2 ^ nat (e - c)) + with_sign t (n * 2 ^ nat (d - c))
      in if v = 0 then f_pack (s \<and> t) 0 0 else f_round (v < 0) (nat \<bar>v\<bar>) c)"

definition fadd :: "float \<Rightarrow> float \<Rightarrow> float" where
  "fadd x y =
     (case f_unpack x of
        FNaN \<Rightarrow> f_qnan
      | FInf s \<Rightarrow>
          (case f_unpack y of
             FNaN \<Rightarrow> f_qnan
           | FInf t \<Rightarrow> if s = t then f_inf s else f_qnan
           | FFin t n d \<Rightarrow> f_inf s)
      | FFin s m e \<Rightarrow>
          (case f_unpack y of
             FNaN \<Rightarrow> f_qnan
           | FInf t \<Rightarrow> f_inf t
           | FFin t n d \<Rightarrow> f_sum s m e t n d))"

definition fsub :: "float \<Rightarrow> float \<Rightarrow> float" where
  "fsub x y = fadd x (fneg y)"

text \<open>The fused multiply-add \<open>x * y + z\<close>: the exact product and sum, rounded once.\<close>

definition ffma :: "float \<Rightarrow> float \<Rightarrow> float \<Rightarrow> float" where
  "ffma x y z =
     (case f_unpack x of
        FNaN \<Rightarrow> f_qnan
      | FInf s \<Rightarrow>
          (case f_unpack y of
             FNaN \<Rightarrow> f_qnan
           | FInf t \<Rightarrow> fadd (f_inf (s \<noteq> t)) z
           | FFin t n d \<Rightarrow> if n = 0 then f_qnan else fadd (f_inf (s \<noteq> t)) z)
      | FFin s m e \<Rightarrow>
          (case f_unpack y of
             FNaN \<Rightarrow> f_qnan
           | FInf t \<Rightarrow> if m = 0 then f_qnan else fadd (f_inf (s \<noteq> t)) z
           | FFin t n d \<Rightarrow>
               (case f_unpack z of
                  FNaN \<Rightarrow> f_qnan
                | FInf u \<Rightarrow> f_inf u
                | FFin u k c \<Rightarrow> f_sum (s \<noteq> t) (m * n) (e + d) u k c)))"

text \<open>
  \<^verbatim>\<open>rintf\<close>: the nearest integral value in the current rounding mode, as a float with
  the sign of its argument.
\<close>

definition rintf :: "float \<Rightarrow> float" where
  "rintf x =
     (case f_unpack x of
        FNaN \<Rightarrow> f_qnan
      | FInf s \<Rightarrow> x
      | FFin s m e \<Rightarrow> if 0 \<le> e then x else f_round s (rne_shift m (nat (- e))) 0)"

subsection \<open>Conversions to integers\<close>

text \<open>
  The 32-bit result of a float-to-integer instruction: the integer when it fits, the
  "integer indefinite" value \<^verbatim>\<open>0x80000000\<close> otherwise (and for NaN and infinities).
\<close>

definition int32_or_indefinite :: "int \<Rightarrow> int32_t" where
  "int32_or_indefinite i =
     (if - (2 ^ 31) \<le> i \<and> i < 2 ^ 31 then word_of_int i else 0x80000000)"

text \<open>\<^verbatim>\<open>CVTTSS2SI\<close>: conversion with truncation towards zero.\<close>

definition cvttss2si :: "float \<Rightarrow> int32_t" where
  "cvttss2si x =
     (case f_unpack x of
        FFin s m e \<Rightarrow>
          int32_or_indefinite
            (with_sign s (if 0 \<le> e then m * 2 ^ nat e else m div 2 ^ nat (- e)))
      | _ \<Rightarrow> 0x80000000)"

text \<open>
  The C cast \<^verbatim>\<open>(int16_t)f\<close> of a float.  C defines it only when the truncated value
  fits in 16 bits; the x86-64 compilers convert with \<^verbatim>\<open>CVTTSS2SI\<close> to 32 bits and
  keep the low 16 bits, which is the wrapping narrowing conversion the specification
  describes for the reference kernel.
\<close>

definition int16_of_float :: "float \<Rightarrow> int16_t" where
  "int16_of_float x = ucast (cvttss2si x)"

text \<open>One lane of \<^verbatim>\<open>_mm256_cvtps_epi32\<close>: conversion with rounding to nearest even.\<close>

definition cvtps_epi32_lane :: "float \<Rightarrow> int32_t" where
  "cvtps_epi32_lane x =
     (case f_unpack x of
        FFin s m e \<Rightarrow>
          int32_or_indefinite
            (with_sign s (if 0 \<le> e then m * 2 ^ nat e else rne_shift m (nat (- e))))
      | _ \<Rightarrow> 0x80000000)"

text \<open>Signed saturation of a 32-bit integer to 16 bits, as \<^verbatim>\<open>PACKSSDW\<close> does.\<close>

definition saturate_int16 :: "int32_t \<Rightarrow> int16_t" where
  "saturate_int16 a =
     (if sint a < - 32768 then 0x8000 else if 32767 < sint a then 0x7FFF else ucast a)"


section \<open>Loops and SIMD registers\<close>

text \<open>
  A C loop \<^verbatim>\<open>for (; number < bound; number++) body\<close> over a state; the body may fail
  (an access outside a buffer), and then the loop fails.
\<close>

function for_loop :: "nat \<Rightarrow> nat \<Rightarrow> (nat \<Rightarrow> 's \<Rightarrow> 's option) \<Rightarrow> 's \<Rightarrow> 's option" where
  "for_loop number bound body s =
     (if number < bound then
        (case body number s of None \<Rightarrow> None | Some s' \<Rightarrow> for_loop (Suc number) bound body s')
      else Some s)"
  by pat_completeness auto
termination
  by (relation "measure (\<lambda>(number, bound, body, s). bound - number)") auto

declare for_loop.simps [simp del]

text \<open>
  \<^verbatim>\<open>__m128\<close> and \<^verbatim>\<open>__m256\<close>: four and eight float lanes, lane 0 (the lowest address)
  first.  \<^verbatim>\<open>__m128i\<close> and \<^verbatim>\<open>__m256i\<close>: four and eight 32-bit lanes.
\<close>

datatype m128 = M128 float float float float
datatype m256 = M256 float float float float float float float float
datatype m128i = M128i int32_t int32_t int32_t int32_t
datatype m256i = M256i int32_t int32_t int32_t int32_t int32_t int32_t int32_t int32_t

fun m128_lane :: "m128 \<Rightarrow> nat \<Rightarrow> float" where
  "m128_lane (M128 x0 x1 x2 x3) k =
     (if k = 0 then x0 else if k = 1 then x1 else if k = 2 then x2 else x3)"

fun m256_lo :: "m256 \<Rightarrow> m128" where
  "m256_lo (M256 x0 x1 x2 x3 x4 x5 x6 x7) = M128 x0 x1 x2 x3"

fun m256_hi :: "m256 \<Rightarrow> m128" where
  "m256_hi (M256 x0 x1 x2 x3 x4 x5 x6 x7) = M128 x4 x5 x6 x7"

fun m256_join :: "m128 \<Rightarrow> m128 \<Rightarrow> m256" where
  "m256_join (M128 x0 x1 x2 x3) (M128 x4 x5 x6 x7) = M256 x0 x1 x2 x3 x4 x5 x6 x7"

fun m256i_lane :: "m256i \<Rightarrow> nat \<Rightarrow> int32_t" where
  "m256i_lane (M256i x0 x1 x2 x3 x4 x5 x6 x7) k =
     (if k = 0 then x0 else if k = 1 then x1 else if k = 2 then x2 else if k = 3 then x3
      else if k = 4 then x4 else if k = 5 then x5 else if k = 6 then x6 else x7)"

text \<open>\<^verbatim>\<open>_MM_SHUFFLE(z, y, x, w)\<close> is \<^verbatim>\<open>(z << 6) | (y << 4) | (x << 2) | w\<close>.\<close>

definition MM_SHUFFLE :: "nat \<Rightarrow> nat \<Rightarrow> nat \<Rightarrow> nat \<Rightarrow> nat" where
  "MM_SHUFFLE z y x w = z * 64 + y * 16 + x * 4 + w"

text \<open>
  \<^verbatim>\<open>_mm_shuffle_ps(a, b, imm)\<close>: lanes 0 and 1 are picked from \<open>a\<close> by bits 1..0 and
  3..2 of \<open>imm\<close>, lanes 2 and 3 from \<open>b\<close> by bits 5..4 and 7..6.  The 256-bit form does
  the same in each 128-bit half.
\<close>

definition mm_shuffle_ps :: "m128 \<Rightarrow> m128 \<Rightarrow> nat \<Rightarrow> m128" where
  "mm_shuffle_ps a b imm =
     M128 (m128_lane a (imm mod 4)) (m128_lane a (imm div 4 mod 4))
          (m128_lane b (imm div 16 mod 4)) (m128_lane b (imm div 64 mod 4))"

definition mm256_shuffle_ps :: "m256 \<Rightarrow> m256 \<Rightarrow> nat \<Rightarrow> m256" where
  "mm256_shuffle_ps a b imm =
     m256_join (mm_shuffle_ps (m256_lo a) (m256_lo b) imm)
               (mm_shuffle_ps (m256_hi a) (m256_hi b) imm)"

definition mm_set_ps1 :: "float \<Rightarrow> m128" where
  "mm_set_ps1 x = M128 x x x x"

definition mm256_set1_ps :: "float \<Rightarrow> m256" where
  "mm256_set1_ps x = M256 x x x x x x x x"

fun mm_mul_ps :: "m128 \<Rightarrow> m128 \<Rightarrow> m128" where
  "mm_mul_ps (M128 x0 x1 x2 x3) (M128 y0 y1 y2 y3) =
     M128 (fmul x0 y0) (fmul x1 y1) (fmul x2 y2) (fmul x3 y3)"

fun mm256_mul_ps :: "m256 \<Rightarrow> m256 \<Rightarrow> m256" where
  "mm256_mul_ps (M256 x0 x1 x2 x3 x4 x5 x6 x7) (M256 y0 y1 y2 y3 y4 y5 y6 y7) =
     M256 (fmul x0 y0) (fmul x1 y1) (fmul x2 y2) (fmul x3 y3)
          (fmul x4 y4) (fmul x5 y5) (fmul x6 y6) (fmul x7 y7)"

fun mm256_cvtps_epi32 :: "m256 \<Rightarrow> m256i" where
  "mm256_cvtps_epi32 (M256 x0 x1 x2 x3 x4 x5 x6 x7) =
     M256i (cvtps_epi32_lane x0) (cvtps_epi32_lane x1) (cvtps_epi32_lane x2)
           (cvtps_epi32_lane x3) (cvtps_epi32_lane x4) (cvtps_epi32_lane x5)
           (cvtps_epi32_lane x6) (cvtps_epi32_lane x7)"

text \<open>
  Two 16-bit elements in one 32-bit lane, the first in the low half (little endian), and
  the two halves of a lane.
\<close>

definition pair16 :: "int16_t \<Rightarrow> int16_t \<Rightarrow> int32_t" where
  "pair16 lo hi = word_cat hi lo"

definition lo16 :: "int32_t \<Rightarrow> int16_t" where
  "lo16 d = ucast d"

definition hi16 :: "int32_t \<Rightarrow> int16_t" where
  "hi16 d = ucast (drop_bit 16 d)"

text \<open>
  \<^verbatim>\<open>_mm256_packs_epi32(a, b)\<close>: in each 128-bit half, the four lanes of \<open>a\<close> and then
  the four lanes of \<open>b\<close>, each saturated to 16 bits.
\<close>

fun mm256_packs_epi32 :: "m256i \<Rightarrow> m256i \<Rightarrow> m256i" where
  "mm256_packs_epi32 (M256i a0 a1 a2 a3 a4 a5 a6 a7) (M256i b0 b1 b2 b3 b4 b5 b6 b7) =
     M256i (pair16 (saturate_int16 a0) (saturate_int16 a1))
           (pair16 (saturate_int16 a2) (saturate_int16 a3))
           (pair16 (saturate_int16 b0) (saturate_int16 b1))
           (pair16 (saturate_int16 b2) (saturate_int16 b3))
           (pair16 (saturate_int16 a4) (saturate_int16 a5))
           (pair16 (saturate_int16 a6) (saturate_int16 a7))
           (pair16 (saturate_int16 b4) (saturate_int16 b5))
           (pair16 (saturate_int16 b6) (saturate_int16 b7))"

text \<open>\<^verbatim>\<open>_mm256_set_epi32(e7, ..., e0)\<close> lists the lanes from the highest down.\<close>

definition mm256_set_epi32 ::
  "int32_t \<Rightarrow> int32_t \<Rightarrow> int32_t \<Rightarrow> int32_t \<Rightarrow> int32_t \<Rightarrow> int32_t \<Rightarrow> int32_t \<Rightarrow> int32_t \<Rightarrow> m256i" where
  "mm256_set_epi32 e7 e6 e5 e4 e3 e2 e1 e0 = M256i e0 e1 e2 e3 e4 e5 e6 e7"

text \<open>\<^verbatim>\<open>_mm256_permutevar8x32_epi32(a, idx)\<close>: lane \<open>i\<close> is lane \<open>idx[i] mod 8\<close> of \<open>a\<close>.\<close>

fun mm256_permutevar8x32_epi32 :: "m256i \<Rightarrow> m256i \<Rightarrow> m256i" where
  "mm256_permutevar8x32_epi32 a (M256i i0 i1 i2 i3 i4 i5 i6 i7) =
     M256i (m256i_lane a (unat i0 mod 8)) (m256i_lane a (unat i1 mod 8))
           (m256i_lane a (unat i2 mod 8)) (m256i_lane a (unat i3 mod 8))
           (m256i_lane a (unat i4 mod 8)) (m256i_lane a (unat i5 mod 8))
           (m256i_lane a (unat i6 mod 8)) (m256i_lane a (unat i7 mod 8))"

text \<open>\<^verbatim>\<open>_mm256_extracti128_si256(a, 0)\<close>: the low 128-bit half.\<close>

fun mm256_extracti128_si256_0 :: "m256i \<Rightarrow> m128i" where
  "mm256_extracti128_si256_0 (M256i x0 x1 x2 x3 x4 x5 x6 x7) = M128i x0 x1 x2 x3"

text \<open>The eight 16-bit elements of an \<^verbatim>\<open>__m128i\<close> in memory order.\<close>

fun m128i_epi16 :: "m128i \<Rightarrow> int16_t list" where
  "m128i_epi16 (M128i d0 d1 d2 d3) =
     [lo16 d0, hi16 d0, lo16 d1, hi16 d1, lo16 d2, hi16 d2, lo16 d3, hi16 d3]"

section \<open>The scaled deinterleave kernels\<close>

text \<open>
  \<^verbatim>\<open>volk_32fc_s32f_deinterleave_real_16i_*(iBuffer, complexVector, scalar, num_points)\<close>.
  The input \<^verbatim>\<open>complexVector\<close> is the list of its floats (real and imaginary parts
  interleaved, as \<^verbatim>\<open>(float*)complexVector\<close> sees it); the output buffer \<^verbatim>\<open>iBuffer\<close>
  is the list of its elements before the call.  The state of a call holds the output
  buffer, the two moving pointers (as offsets in elements), and a log of the float
  offsets read and of the output offsets written, oldest first.  An access outside a
  buffer is undefined in C; here the call returns \<open>None\<close>.  The alignment that the
  \<^verbatim>\<open>_a_\<close> variants require of the addresses is not part of the model.
\<close>

record deint_state =
  iBuf :: "int16_t list"
  complexVectorPtr :: nat
  iBufferPtr :: nat
  rd_log :: "nat list"
  wr_log :: "nat list"

definition deint_init :: "int16_t list \<Rightarrow> deint_state" where
  "deint_init iBuffer =
     \<lparr>iBuf = iBuffer, complexVectorPtr = 0, iBufferPtr = 0, rd_log = [], wr_log = []\<rparr>"

definition load_float :: "float list \<Rightarrow> nat \<Rightarrow> deint_state \<Rightarrow> (float \<times> deint_state) option" where
  "load_float cv p s =
     (if p < length cv then Some (cv ! p, s\<lparr>rd_log := rd_log s @ [p]\<rparr>) else None)"

definition store_int16 :: "nat \<Rightarrow> int16_t \<Rightarrow> deint_state \<Rightarrow> deint_state option" where
  "store_int16 p v s =
     (if p < length (iBuf s)
      then Some (s\<lparr>iBuf := (iBuf s)[p := v], wr_log := wr_log s @ [p]\<rparr>) else None)"

text \<open>\<^verbatim>\<open>_mm_load_ps(p)\<close> and \<^verbatim>\<open>_mm256_load_ps(p)\<close> (and \<^verbatim>\<open>loadu\<close>): 4 and 8 floats.\<close>

definition mm_load_ps :: "float list \<Rightarrow> nat \<Rightarrow> deint_state \<Rightarrow> (m128 \<times> deint_state) option" where
  "mm_load_ps cv p s =
     (if p + 4 \<le> length cv
      then Some (M128 (cv ! p) (cv ! (p + 1)) (cv ! (p + 2)) (cv ! (p + 3)),
                 s\<lparr>rd_log := rd_log s @ [p, p + 1, p + 2, p + 3]\<rparr>)
      else None)"

definition mm256_load_ps :: "float list \<Rightarrow> nat \<Rightarrow> deint_state \<Rightarrow> (m256 \<times> deint_state) option" where
  "mm256_load_ps cv p s =
     (if p + 8 \<le> length cv
      then Some (M256 (cv ! p) (cv ! (p + 1)) (cv ! (p + 2)) (cv ! (p + 3))
                      (cv ! (p + 4)) (cv ! (p + 5)) (cv ! (p + 6)) (cv ! (p + 7)),
                 s\<lparr>rd_log := rd_log s @ [p, p + 1, p + 2, p + 3, p + 4, p + 5, p + 6, p + 7]\<rparr>)
      else None)"

text \<open>\<^verbatim>\<open>_mm_store_si128((__m128i*)iBufferPtr, b)\<close>: eight 16-bit elements.\<close>

definition mm_store_si128 :: "nat \<Rightarrow> m128i \<Rightarrow> deint_state \<Rightarrow> deint_state option" where
  "mm_store_si128 p b s =
     (if p + 8 \<le> length (iBuf s)
      then Some (s\<lparr>iBuf := take p (iBuf s) @ m128i_epi16 b @ drop (p + 8) (iBuf s),
                  wr_log := wr_log s @ [p, p + 1, p + 2, p + 3, p + 4, p + 5, p + 6, p + 7]\<rparr>)
      else None)"

text \<open>
  The scalar loop body, the same text in all four kernels:
  \<^verbatim>\<open>*iBufferPtr++ = (int16_t)rintf(*complexVectorPtr++ * scalar); complexVectorPtr++;\<close>
\<close>

definition scalar_step :: "float list \<Rightarrow> float \<Rightarrow> deint_state \<Rightarrow> deint_state option" where
  "scalar_step cv scalar s = do {
     (x, s1) \<leftarrow> load_float cv (complexVectorPtr s) s;
     s2 \<leftarrow> store_int16 (iBufferPtr s1) (int16_of_float (rintf (fmul x scalar))) s1;
     Some (s2\<lparr>complexVectorPtr := complexVectorPtr s2 + 2, iBufferPtr := iBufferPtr s2 + 1\<rparr>)
   }"

definition volk_32fc_s32f_deinterleave_real_16i_generic ::
  "int16_t list \<Rightarrow> float list \<Rightarrow> float \<Rightarrow> uint \<Rightarrow> deint_state option" where
  "volk_32fc_s32f_deinterleave_real_16i_generic iBuffer complexVector scalar num_points =
     for_loop 0 (unat num_points) (\<lambda>number. scalar_step complexVector scalar)
       (deint_init iBuffer)"

text \<open>The main loop body of the SSE kernel: four complex samples.\<close>

definition sse_step :: "float list \<Rightarrow> m128 \<Rightarrow> deint_state \<Rightarrow> deint_state option" where
  "sse_step cv vScalar s = do {
     (cplxValue1, s1) \<leftarrow> mm_load_ps cv (complexVectorPtr s) s;
     let s2 = s1\<lparr>complexVectorPtr := complexVectorPtr s1 + 4\<rparr>;
     (cplxValue2, s3) \<leftarrow> mm_load_ps cv (complexVectorPtr s2) s2;
     let s4 = s3\<lparr>complexVectorPtr := complexVectorPtr s3 + 4\<rparr>;
     let iValue = mm_shuffle_ps cplxValue1 cplxValue2 (MM_SHUFFLE 2 0 2 0);
     let floatBuffer = mm_mul_ps iValue vScalar;
     s5 \<leftarrow> store_int16 (iBufferPtr s4) (int16_of_float (rintf (m128_lane floatBuffer 0))) s4;
     let s6 = s5\<lparr>iBufferPtr := iBufferPtr s5 + 1\<rparr>;
     s7 \<leftarrow> store_int16 (iBufferPtr s6) (int16_of_float (rintf (m128_lane floatBuffer 1))) s6;
     let s8 = s7\<lparr>iBufferPtr := iBufferPtr s7 + 1\<rparr>;
     s9 \<leftarrow> store_int16 (iBufferPtr s8) (int16_of_float (rintf (m128_lane floatBuffer 2))) s8;
     let s10 = s9\<lparr>iBufferPtr := iBufferPtr s9 + 1\<rparr>;
     s11 \<leftarrow> store_int16 (iBufferPtr s10) (int16_of_float (rintf (m128_lane floatBuffer 3))) s10;
     Some (s11\<lparr>iBufferPtr := iBufferPtr s11 + 1\<rparr>)
   }"

definition volk_32fc_s32f_deinterleave_real_16i_a_sse ::
  "int16_t list \<Rightarrow> float list \<Rightarrow> float \<Rightarrow> uint \<Rightarrow> deint_state option" where
  "volk_32fc_s32f_deinterleave_real_16i_a_sse iBuffer complexVector scalar num_points = do {
     let quarterPoints = unat (num_points div 4);
     s \<leftarrow> for_loop 0 quarterPoints (\<lambda>number. sse_step complexVector (mm_set_ps1 scalar))
            (deint_init iBuffer);
     let number = quarterPoints * 4;
     for_loop number (unat num_points) (\<lambda>number. scalar_step complexVector scalar)
       (s\<lparr>iBufferPtr := number\<rparr>)
   }"

text \<open>The main loop body of the two AVX2 kernels: eight complex samples.\<close>

definition avx2_step :: "float list \<Rightarrow> m256 \<Rightarrow> m256i \<Rightarrow> deint_state \<Rightarrow> deint_state option" where
  "avx2_step cv vScalar idx s = do {
     (cplxValue1, s1) \<leftarrow> mm256_load_ps cv (complexVectorPtr s) s;
     let s2 = s1\<lparr>complexVectorPtr := complexVectorPtr s1 + 8\<rparr>;
     (cplxValue2, s3) \<leftarrow> mm256_load_ps cv (complexVectorPtr s2) s2;
     let s4 = s3\<lparr>complexVectorPtr := complexVectorPtr s3 + 8\<rparr>;
     let iValue = mm256_shuffle_ps cplxValue1 cplxValue2 (MM_SHUFFLE 2 0 2 0);
     let iValue = mm256_mul_ps iValue vScalar;
     let a = mm256_cvtps_epi32 iValue;
     let a = mm256_packs_epi32 a a;
     let a = mm256_permutevar8x32_epi32 a idx;
     let b = mm256_extracti128_si256_0 a;
     s5 \<leftarrow> mm_store_si128 (iBufferPtr s4) b s4;
     Some (s5\<lparr>iBufferPtr := iBufferPtr s5 + 8\<rparr>)
   }"

definition volk_32fc_s32f_deinterleave_real_16i_a_avx2 ::
  "int16_t list \<Rightarrow> float list \<Rightarrow> float \<Rightarrow> uint \<Rightarrow> deint_state option" where
  "volk_32fc_s32f_deinterleave_real_16i_a_avx2 iBuffer complexVector scalar num_points = do {
     let eighthPoints = unat (num_points div 8);
     let idx = mm256_set_epi32 3 3 3 3 5 1 4 0;
     s \<leftarrow> for_loop 0 eighthPoints
            (\<lambda>number. avx2_step complexVector (mm256_set1_ps scalar) idx) (deint_init iBuffer);
     let number = eighthPoints * 8;
     for_loop number (unat num_points) (\<lambda>number. scalar_step complexVector scalar)
       (s\<lparr>iBufferPtr := number\<rparr>)
   }"

definition volk_32fc_s32f_deinterleave_real_16i_u_avx2 ::
  "int16_t list \<Rightarrow> float list \<Rightarrow> float \<Rightarrow> uint \<Rightarrow> deint_state option" where
  "volk_32fc_s32f_deinterleave_real_16i_u_avx2 iBuffer complexVector scalar num_points = do {
     let eighthPoints = unat (num_points div 8);
     let idx = mm256_set_epi32 3 3 3 3 5 1 4 0;
     s \<leftarrow> for_loop 0 eighthPoints
            (\<lambda>number. avx2_step complexVector (mm256_set1_ps scalar) idx) (deint_init iBuffer);
     let number = eighthPoints * 8;
     for_loop number (unat num_points) (\<lambda>number. scalar_step complexVector scalar)
       (s\<lparr>iBufferPtr := number\<rparr>)
   }"


section \<open>The complex dot product kernels\<close>

text \<open>
  \<^verbatim>\<open>volk_32fc_x2_dot_prod_32fc_*(result, input, taps, num_points)\<close>.  The buffers
  \<^verbatim>\<open>input\<close> and \<^verbatim>\<open>taps\<close> are the lists of their floats; \<^verbatim>\<open>result\<close> is the value
  that the caller's cell holds before the call.  The memory of a call holds the current
  content of \<^verbatim>\<open>*result\<close>, the values stored to it (oldest first), and the float offsets
  read from the two buffers (oldest first).  A read outside a buffer returns \<open>None\<close>.
  The buffers and \<^verbatim>\<open>*result\<close> do not overlap (the caller's contract).
\<close>

datatype buffer = Input | Taps

record dp_mem =
  result_cell :: lv_32fc_t
  writes :: "lv_32fc_t list"
  reads :: "(buffer \<times> nat) list"

definition dp_init :: "lv_32fc_t \<Rightarrow> dp_mem" where
  "dp_init result = \<lparr>result_cell = result, writes = [], reads = []\<rparr>"

definition store_result :: "lv_32fc_t \<Rightarrow> dp_mem \<Rightarrow> dp_mem" where
  "store_result v mem = mem\<lparr>result_cell := v, writes := writes mem @ [v]\<rparr>"

text \<open>One complex sample \<^verbatim>\<open>buf[i]\<close> of a buffer of \<^verbatim>\<open>lv_32fc_t\<close>.\<close>

definition load_complex ::
  "buffer \<Rightarrow> float list \<Rightarrow> nat \<Rightarrow> dp_mem \<Rightarrow> (lv_32fc_t \<times> dp_mem) option" where
  "load_complex b buf i mem =
     (if 2 * i + 2 \<le> length buf
      then Some ((buf ! (2 * i), buf ! (2 * i + 1)),
                 mem\<lparr>reads := reads mem @ [(b, 2 * i), (b, 2 * i + 1)]\<rparr>)
      else None)"

text \<open>Four and eight consecutive floats from float offset \<open>p\<close>.\<close>

definition dp_load_ps ::
  "buffer \<Rightarrow> float list \<Rightarrow> nat \<Rightarrow> dp_mem \<Rightarrow> (m128 \<times> dp_mem) option" where
  "dp_load_ps b buf p mem =
     (if p + 4 \<le> length buf
      then Some (M128 (buf ! p) (buf ! (p + 1)) (buf ! (p + 2)) (buf ! (p + 3)),
                 mem\<lparr>reads := reads mem @ [(b, p), (b, p + 1), (b, p + 2), (b, p + 3)]\<rparr>)
      else None)"

definition dp_load256_ps ::
  "buffer \<Rightarrow> float list \<Rightarrow> nat \<Rightarrow> dp_mem \<Rightarrow> (m256 \<times> dp_mem) option" where
  "dp_load256_ps b buf p mem =
     (if p + 8 \<le> length buf
      then Some (M256 (buf ! p) (buf ! (p + 1)) (buf ! (p + 2)) (buf ! (p + 3))
                      (buf ! (p + 4)) (buf ! (p + 5)) (buf ! (p + 6)) (buf ! (p + 7)),
                 mem\<lparr>reads := reads mem @ [(b, p), (b, p + 1), (b, p + 2), (b, p + 3),
                                            (b, p + 4), (b, p + 5), (b, p + 6), (b, p + 7)]\<rparr>)
      else None)"

text \<open>
  \<^verbatim>\<open>vld2q_f32\<close>: eight floats, de-interleaved into the even ones and the odd ones.
  \<^verbatim>\<open>vld4q_f32\<close>: sixteen floats, de-interleaved by four.
\<close>

definition vld2q_f32 ::
  "buffer \<Rightarrow> float list \<Rightarrow> nat \<Rightarrow> dp_mem \<Rightarrow> ((m128 \<times> m128) \<times> dp_mem) option" where
  "vld2q_f32 b buf p mem =
     (if p + 8 \<le> length buf
      then Some ((M128 (buf ! p) (buf ! (p + 2)) (buf ! (p + 4)) (buf ! (p + 6)),
                  M128 (buf ! (p + 1)) (buf ! (p + 3)) (buf ! (p + 5)) (buf ! (p + 7))),
                 mem\<lparr>reads := reads mem @ [(b, p), (b, p + 1), (b, p + 2), (b, p + 3),
                                            (b, p + 4), (b, p + 5), (b, p + 6), (b, p + 7)]\<rparr>)
      else None)"

definition vld4q_f32 ::
  "buffer \<Rightarrow> float list \<Rightarrow> nat \<Rightarrow> dp_mem \<Rightarrow> ((m128 \<times> m128 \<times> m128 \<times> m128) \<times> dp_mem) option" where
  "vld4q_f32 b buf p mem =
     (if p + 16 \<le> length buf
      then Some ((M128 (buf ! p) (buf ! (p + 4)) (buf ! (p + 8)) (buf ! (p + 12)),
                  M128 (buf ! (p + 1)) (buf ! (p + 5)) (buf ! (p + 9)) (buf ! (p + 13)),
                  M128 (buf ! (p + 2)) (buf ! (p + 6)) (buf ! (p + 10)) (buf ! (p + 14)),
                  M128 (buf ! (p + 3)) (buf ! (p + 7)) (buf ! (p + 11)) (buf ! (p + 15))),
                 mem\<lparr>reads := reads mem @ [(b, p), (b, p + 1), (b, p + 2), (b, p + 3),
                                            (b, p + 4), (b, p + 5), (b, p + 6), (b, p + 7),
                                            (b, p + 8), (b, p + 9), (b, p + 10), (b, p + 11),
                                            (b, p + 12), (b, p + 13), (b, p + 14), (b, p + 15)]\<rparr>)
      else None)"

subsection \<open>Complex arithmetic and the lane-wise intrinsics\<close>

definition cadd :: "lv_32fc_t \<Rightarrow> lv_32fc_t \<Rightarrow> lv_32fc_t" where
  "cadd x y = (fadd (fst x) (fst y), fadd (snd x) (snd y))"

text \<open>
  Modelled from the spec: the product of two \<^verbatim>\<open>lv_32fc_t\<close>, whose type and operators
  are declared in \<^verbatim>\<open>volk/volk_complex.h\<close>, a header this repository does not hold.
  The specification gives \<open>(a+bi)(c+di) = (ac-bd) + (ad+bc)i\<close>.
\<close>

definition cmul :: "lv_32fc_t \<Rightarrow> lv_32fc_t \<Rightarrow> lv_32fc_t" where
  "cmul x y =
     (fsub (fmul (fst x) (fst y)) (fmul (snd x) (snd y)),
      fadd (fmul (fst x) (snd y)) (fmul (snd x) (fst y)))"

definition c_zero :: lv_32fc_t where
  "c_zero = (f_zero, f_zero)"

definition mm_setzero_ps :: m128 where
  "mm_setzero_ps = M128 f_zero f_zero f_zero f_zero"

definition mm256_setzero_ps :: m256 where
  "mm256_setzero_ps = M256 f_zero f_zero f_zero f_zero f_zero f_zero f_zero f_zero"

fun mm_moveldup_ps :: "m128 \<Rightarrow> m128" where
  "mm_moveldup_ps (M128 y0 y1 y2 y3) = M128 y0 y0 y2 y2"

fun mm_movehdup_ps :: "m128 \<Rightarrow> m128" where
  "mm_movehdup_ps (M128 y0 y1 y2 y3) = M128 y1 y1 y3 y3"

fun mm_add_ps :: "m128 \<Rightarrow> m128 \<Rightarrow> m128" where
  "mm_add_ps (M128 x0 x1 x2 x3) (M128 y0 y1 y2 y3) =
     M128 (fadd x0 y0) (fadd x1 y1) (fadd x2 y2) (fadd x3 y3)"

fun mm_sub_ps :: "m128 \<Rightarrow> m128 \<Rightarrow> m128" where
  "mm_sub_ps (M128 x0 x1 x2 x3) (M128 y0 y1 y2 y3) =
     M128 (fsub x0 y0) (fsub x1 y1) (fsub x2 y2) (fsub x3 y3)"

text \<open>\<^verbatim>\<open>_mm_addsub_ps\<close>: subtract in the even lanes, add in the odd lanes.\<close>

fun mm_addsub_ps :: "m128 \<Rightarrow> m128 \<Rightarrow> m128" where
  "mm_addsub_ps (M128 x0 x1 x2 x3) (M128 y0 y1 y2 y3) =
     M128 (fsub x0 y0) (fadd x1 y1) (fsub x2 y2) (fadd x3 y3)"

fun mm256_moveldup_ps :: "m256 \<Rightarrow> m256" where
  "mm256_moveldup_ps (M256 y0 y1 y2 y3 y4 y5 y6 y7) = M256 y0 y0 y2 y2 y4 y4 y6 y6"

fun mm256_movehdup_ps :: "m256 \<Rightarrow> m256" where
  "mm256_movehdup_ps (M256 y0 y1 y2 y3 y4 y5 y6 y7) = M256 y1 y1 y3 y3 y5 y5 y7 y7"

fun mm256_add_ps :: "m256 \<Rightarrow> m256 \<Rightarrow> m256" where
  "mm256_add_ps (M256 x0 x1 x2 x3 x4 x5 x6 x7) (M256 y0 y1 y2 y3 y4 y5 y6 y7) =
     M256 (fadd x0 y0) (fadd x1 y1) (fadd x2 y2) (fadd x3 y3)
          (fadd x4 y4) (fadd x5 y5) (fadd x6 y6) (fadd x7 y7)"

fun mm256_addsub_ps :: "m256 \<Rightarrow> m256 \<Rightarrow> m256" where
  "mm256_addsub_ps (M256 x0 x1 x2 x3 x4 x5 x6 x7) (M256 y0 y1 y2 y3 y4 y5 y6 y7) =
     M256 (fsub x0 y0) (fadd x1 y1) (fsub x2 y2) (fadd x3 y3)
          (fsub x4 y4) (fadd x5 y5) (fsub x6 y6) (fadd x7 y7)"

text \<open>
  \<^verbatim>\<open>_mm256_fmaddsub_ps(a, b, c)\<close>: the fused \<open>a * b - c\<close> in the even lanes and the
  fused \<open>a * b + c\<close> in the odd lanes.
\<close>

fun mm256_fmaddsub_ps :: "m256 \<Rightarrow> m256 \<Rightarrow> m256 \<Rightarrow> m256" where
  "mm256_fmaddsub_ps (M256 x0 x1 x2 x3 x4 x5 x6 x7) (M256 y0 y1 y2 y3 y4 y5 y6 y7)
                     (M256 z0 z1 z2 z3 z4 z5 z6 z7) =
     M256 (ffma x0 y0 (fneg z0)) (ffma x1 y1 z1) (ffma x2 y2 (fneg z2)) (ffma x3 y3 z3)
          (ffma x4 y4 (fneg z4)) (ffma x5 y5 z5) (ffma x6 y6 (fneg z6)) (ffma x7 y7 z7)"

text \<open>
  \<^verbatim>\<open>vmlaq_f32(a, b, c)\<close> is \<open>a + b * c\<close> and \<^verbatim>\<open>vmlsq_f32(a, b, c)\<close> is
  \<open>a - b * c\<close>, the product rounded before the sum (the NEON multiply-accumulate is not
  fused).
\<close>

definition vmlaq_f32 :: "m128 \<Rightarrow> m128 \<Rightarrow> m128 \<Rightarrow> m128" where
  "vmlaq_f32 a b c = mm_add_ps a (mm_mul_ps b c)"

definition vmlsq_f32 :: "m128 \<Rightarrow> m128 \<Rightarrow> m128 \<Rightarrow> m128" where
  "vmlsq_f32 a b c = mm_sub_ps a (mm_mul_ps b c)"

text \<open>
  The complex samples that \<^verbatim>\<open>_mm_storeu_ps\<close>, \<^verbatim>\<open>_mm256_storeu_ps\<close> and
  \<^verbatim>\<open>vst2q_f32\<close> leave in the local array \<^verbatim>\<open>dotProductVector\<close> or \<^verbatim>\<open>accum_result\<close>.
\<close>

fun m128_complex :: "m128 \<Rightarrow> lv_32fc_t \<times> lv_32fc_t" where
  "m128_complex (M128 x0 x1 x2 x3) = ((x0, x1), (x2, x3))"

fun m256_complex :: "m256 \<Rightarrow> lv_32fc_t \<times> lv_32fc_t \<times> lv_32fc_t \<times> lv_32fc_t" where
  "m256_complex (M256 x0 x1 x2 x3 x4 x5 x6 x7) = ((x0, x1), (x2, x3), (x4, x5), (x6, x7))"

fun vst2q_f32 :: "m128 \<times> m128 \<Rightarrow> lv_32fc_t \<times> lv_32fc_t \<times> lv_32fc_t \<times> lv_32fc_t" where
  "vst2q_f32 (M128 r0 r1 r2 r3, M128 i0 i1 i2 i3) = ((r0, i0), (r1, i1), (r2, i2), (r3, i3))"

text \<open>\<^verbatim>\<open>v[0] + v[1]\<close> and \<^verbatim>\<open>v[0] + v[1] + v[2] + v[3]\<close>, added from the left.\<close>

fun sum2 :: "lv_32fc_t \<times> lv_32fc_t \<Rightarrow> lv_32fc_t" where
  "sum2 (v0, v1) = cadd v0 v1"

fun sum4 :: "lv_32fc_t \<times> lv_32fc_t \<times> lv_32fc_t \<times> lv_32fc_t \<Rightarrow> lv_32fc_t" where
  "sum4 (v0, v1, v2, v3) = cadd (cadd (cadd v0 v1) v2) v3"

subsection \<open>The generic kernel\<close>

text \<open>
  The loop state is \<open>(in, tp, sum0, sum1, mem)\<close>: the two float pointers as offsets, the
  two local accumulators and the memory.  One iteration reads \<^verbatim>\<open>in[0..3]\<close> and
  \<^verbatim>\<open>tp[0..3]\<close>.  The two float stores \<^verbatim>\<open>res[0] = ...; res[1] = ...;\<close> after the
  loop are one store of the complex value to \<^verbatim>\<open>*result\<close>.  The C expressions
  \<^verbatim>\<open>in[0] * tp[0] - in[1] * tp[1]\<close> and \<^verbatim>\<open>in[0] * tp[1] + in[1] * tp[0]\<close> are evaluated
  as they are written, each product and each sum rounded to binary32.  A compiler that
  contracts them into fused multiply-adds makes the kernel return other bits; what is
  proved about the bits of the generic result for two samples and more is proved of the
  uncontracted evaluation.
\<close>

fun generic_step ::
  "float list \<Rightarrow> float list \<Rightarrow> nat \<times> nat \<times> lv_32fc_t \<times> lv_32fc_t \<times> dp_mem
     \<Rightarrow> (nat \<times> nat \<times> lv_32fc_t \<times> lv_32fc_t \<times> dp_mem) option" where
  "generic_step input taps (in_p, tp_p, sum0, sum1, mem) = do {
     (x, mem1) \<leftarrow> dp_load_ps Input input in_p mem;
     (y, mem2) \<leftarrow> dp_load_ps Taps taps tp_p mem1;
     let sum0' = (fadd (fst sum0) (fsub (fmul (m128_lane x 0) (m128_lane y 0))
                                        (fmul (m128_lane x 1) (m128_lane y 1))),
                  fadd (snd sum0) (fadd (fmul (m128_lane x 0) (m128_lane y 1))
                                        (fmul (m128_lane x 1) (m128_lane y 0))));
     let sum1' = (fadd (fst sum1) (fsub (fmul (m128_lane x 2) (m128_lane y 2))
                                        (fmul (m128_lane x 3) (m128_lane y 3))),
                  fadd (snd sum1) (fadd (fmul (m128_lane x 2) (m128_lane y 3))
                                        (fmul (m128_lane x 3) (m128_lane y 2))));
     Some (in_p + 4, tp_p + 4, sum0', sum1', mem2)
   }"

text \<open>
  The clean-up statement \<^verbatim>\<open>acc += input[i] * taps[i]\<close> on a local accumulator, and
  the statement \<^verbatim>\<open>*result += x\<close> on the caller's cell.
\<close>

definition accumulate_product ::
  "float list \<Rightarrow> float list \<Rightarrow> nat \<Rightarrow> lv_32fc_t \<times> dp_mem \<Rightarrow> (lv_32fc_t \<times> dp_mem) option" where
  "accumulate_product input taps i st = do {
     (x, mem1) \<leftarrow> load_complex Input input i (snd st);
     (y, mem2) \<leftarrow> load_complex Taps taps i mem1;
     Some (cadd (fst st) (cmul x y), mem2)
   }"

definition add_to_result :: "lv_32fc_t \<Rightarrow> dp_mem \<Rightarrow> dp_mem" where
  "add_to_result x mem = store_result (cadd (result_cell mem) x) mem"

definition volk_32fc_x2_dot_prod_32fc_generic ::
  "lv_32fc_t \<Rightarrow> float list \<Rightarrow> float list \<Rightarrow> uint \<Rightarrow> dp_mem option" where
  "volk_32fc_x2_dot_prod_32fc_generic result input taps num_points = do {
     let n_2_ccomplex_blocks = unat (num_points div 2);
     (in_p, tp_p, sum0, sum1, mem) \<leftarrow>
        for_loop 0 n_2_ccomplex_blocks (\<lambda>i. generic_step input taps)
          (0, 0, c_zero, c_zero, dp_init result);
     let mem1 = store_result (fadd (fst sum0) (fst sum1), fadd (snd sum0) (snd sum1)) mem;
     if num_points AND 1 \<noteq> 0 then do {
       (x, mem2) \<leftarrow> load_complex Input input (unat num_points - 1) mem1;
       (y, mem3) \<leftarrow> load_complex Taps taps (unat num_points - 1) mem2;
       Some (add_to_result (cmul x y) mem3)
     } else Some mem1
   }"

subsection \<open>The SSE3 kernels\<close>

text \<open>
  The loop state is \<open>(a, b, dotProdVal, mem)\<close>; \<open>a\<close> and \<open>b\<close> are pointers to
  \<^verbatim>\<open>lv_32fc_t\<close>, offsets in complex samples.
\<close>

fun sse3_step ::
  "float list \<Rightarrow> float list \<Rightarrow> nat \<times> nat \<times> m128 \<times> dp_mem \<Rightarrow> (nat \<times> nat \<times> m128 \<times> dp_mem) option" where
  "sse3_step input taps (a, b, dotProdVal, mem) = do {
     (x, mem1) \<leftarrow> dp_load_ps Input input (2 * a) mem;
     (y, mem2) \<leftarrow> dp_load_ps Taps taps (2 * b) mem1;
     let yl = mm_moveldup_ps y;
     let yh = mm_movehdup_ps y;
     let tmp1 = mm_mul_ps x yl;
     let x = mm_shuffle_ps x x 0xB1;
     let tmp2 = mm_mul_ps x yh;
     let z = mm_addsub_ps tmp1 tmp2;
     let dotProdVal = mm_add_ps dotProdVal z;
     Some (a + 2, b + 2, dotProdVal, mem2)
   }"

text \<open>
  What follows the main loop in both SSE3 kernels: the two lanes are added to the local
  \<^verbatim>\<open>dotProduct\<close>, an odd last sample is added, and \<^verbatim>\<open>*result\<close> is stored once.
\<close>

definition sse3_finish ::
  "float list \<Rightarrow> float list \<Rightarrow> uint \<Rightarrow> m128 \<Rightarrow> dp_mem \<Rightarrow> dp_mem option" where
  "sse3_finish input taps num_points dotProdVal mem = do {
     let isodd = num_points AND 1;
     let dotProductVector = m128_complex dotProdVal;
     let dotProduct = cadd c_zero (sum2 dotProductVector);
     (dotProduct, mem1) \<leftarrow>
        (if isodd \<noteq> 0 then accumulate_product input taps (unat num_points - 1) (dotProduct, mem)
         else Some (dotProduct, mem));
     Some (store_result dotProduct mem1)
   }"

text \<open>
  The bound of the main loop.  The unaligned kernel takes \<^verbatim>\<open>num_points / 2\<close>; the
  aligned kernel computes it from \<^verbatim>\<open>num_bytes = num_points * 8\<close>, an
  \<^verbatim>\<open>unsigned int\<close> product, as \<^verbatim>\<open>num_bytes >> 4\<close>.
\<close>

definition a_sse3_halfPoints :: "uint \<Rightarrow> uint" where
  "a_sse3_halfPoints num_points = (let num_bytes = num_points * 8 in drop_bit 4 num_bytes)"

definition u_sse3_halfPoints :: "uint \<Rightarrow> uint" where
  "u_sse3_halfPoints num_points = num_points div 2"

definition volk_32fc_x2_dot_prod_32fc_u_sse3 ::
  "lv_32fc_t \<Rightarrow> float list \<Rightarrow> float list \<Rightarrow> uint \<Rightarrow> dp_mem option" where
  "volk_32fc_x2_dot_prod_32fc_u_sse3 result input taps num_points = do {
     let halfPoints = unat (u_sse3_halfPoints num_points);
     (a, b, dotProdVal, mem) \<leftarrow>
        for_loop 0 halfPoints (\<lambda>number. sse3_step input taps)
          (0, 0, mm_setzero_ps, dp_init result);
     sse3_finish input taps num_points dotProdVal mem
   }"

definition volk_32fc_x2_dot_prod_32fc_a_sse3 ::
  "lv_32fc_t \<Rightarrow> float list \<Rightarrow> float list \<Rightarrow> uint \<Rightarrow> dp_mem option" where
  "volk_32fc_x2_dot_prod_32fc_a_sse3 result input taps num_points = do {
     let halfPoints = unat (a_sse3_halfPoints num_points);
     (a, b, dotProdVal, mem) \<leftarrow>
        for_loop 0 halfPoints (\<lambda>number. sse3_step input taps)
          (0, 0, mm_setzero_ps, dp_init result);
     sse3_finish input taps num_points dotProdVal mem
   }"

subsection \<open>The AVX kernels\<close>

fun avx_step ::
  "float list \<Rightarrow> float list \<Rightarrow> nat \<times> nat \<times> m256 \<times> dp_mem \<Rightarrow> (nat \<times> nat \<times> m256 \<times> dp_mem) option" where
  "avx_step input taps (a, b, dotProdVal, mem) = do {
     (x, mem1) \<leftarrow> dp_load256_ps Input input (2 * a) mem;
     (y, mem2) \<leftarrow> dp_load256_ps Taps taps (2 * b) mem1;
     let yl = mm256_moveldup_ps y;
     let yh = mm256_movehdup_ps y;
     let tmp1 = mm256_mul_ps x yl;
     let x = mm256_shuffle_ps x x 0xB1;
     let tmp2 = mm256_mul_ps x yh;
     let z = mm256_addsub_ps tmp1 tmp2;
     let dotProdVal = mm256_add_ps dotProdVal z;
     Some (a + 4, b + 4, dotProdVal, mem2)
   }"

fun avx_fma_step ::
  "float list \<Rightarrow> float list \<Rightarrow> nat \<times> nat \<times> m256 \<times> dp_mem \<Rightarrow> (nat \<times> nat \<times> m256 \<times> dp_mem) option" where
  "avx_fma_step input taps (a, b, dotProdVal, mem) = do {
     (x, mem1) \<leftarrow> dp_load256_ps Input input (2 * a) mem;
     (y, mem2) \<leftarrow> dp_load256_ps Taps taps (2 * b) mem1;
     let yl = mm256_moveldup_ps y;
     let yh = mm256_movehdup_ps y;
     let tmp1 = x;
     let x = mm256_shuffle_ps x x 0xB1;
     let tmp2 = mm256_mul_ps x yh;
     let z = mm256_fmaddsub_ps tmp1 yl tmp2;
     let dotProdVal = mm256_add_ps dotProdVal z;
     Some (a + 4, b + 4, dotProdVal, mem2)
   }"

text \<open>
  What follows the main loop in the four AVX kernels: the four lanes are added to the
  local \<^verbatim>\<open>dotProduct\<close>, the last \<^verbatim>\<open>num_points & 3\<close> samples are added by the loop
  \<^verbatim>\<open>for (i = num_points - isodd; i < num_points; i++)\<close>, and \<^verbatim>\<open>*result\<close> is stored
  once.
\<close>

definition avx_finish ::
  "float list \<Rightarrow> float list \<Rightarrow> uint \<Rightarrow> m256 \<Rightarrow> dp_mem \<Rightarrow> dp_mem option" where
  "avx_finish input taps num_points dotProdVal mem = do {
     let isodd = num_points AND 3;
     let dotProductVector = m256_complex dotProdVal;
     let dotProduct = cadd c_zero (sum4 dotProductVector);
     (dotProduct, mem1) \<leftarrow>
        for_loop (unat (num_points - isodd)) (unat num_points)
          (accumulate_product input taps) (dotProduct, mem);
     Some (store_result dotProduct mem1)
   }"

definition volk_32fc_x2_dot_prod_32fc_u_avx ::
  "lv_32fc_t \<Rightarrow> float list \<Rightarrow> float list \<Rightarrow> uint \<Rightarrow> dp_mem option" where
  "volk_32fc_x2_dot_prod_32fc_u_avx result input taps num_points = do {
     let quarterPoints = unat (num_points div 4);
     (a, b, dotProdVal, mem) \<leftarrow>
        for_loop 0 quarterPoints (\<lambda>number. avx_step input taps)
          (0, 0, mm256_setzero_ps, dp_init result);
     avx_finish input taps num_points dotProdVal mem
   }"

definition volk_32fc_x2_dot_prod_32fc_a_avx ::
  "lv_32fc_t \<Rightarrow> float list \<Rightarrow> float list \<Rightarrow> uint \<Rightarrow> dp_mem option" where
  "volk_32fc_x2_dot_prod_32fc_a_avx result input taps num_points = do {
     let quarterPoints = unat (num_points div 4);
     (a, b, dotProdVal, mem) \<leftarrow>
        for_loop 0 quarterPoints (\<lambda>number. avx_step input taps)
          (0, 0, mm256_setzero_ps, dp_init result);
     avx_finish input taps num_points dotProdVal mem
   }"

definition volk_32fc_x2_dot_prod_32fc_u_avx_fma ::
  "lv_32fc_t \<Rightarrow> float list \<Rightarrow> float list \<Rightarrow> uint \<Rightarrow> dp_mem option" where
  "volk_32fc_x2_dot_prod_32fc_u_avx_fma result input taps num_points = do {
     let quarterPoints = unat (num_points div 4);
     (a, b, dotProdVal, mem) \<leftarrow>
        for_loop 0 quarterPoints (\<lambda>number. avx_fma_step input taps)
          (0, 0, mm256_setzero_ps, dp_init result);
     avx_finish input taps num_points dotProdVal mem
   }"

definition volk_32fc_x2_dot_prod_32fc_a_avx_fma ::
  "lv_32fc_t \<Rightarrow> float list \<Rightarrow> float list \<Rightarrow> uint \<Rightarrow> dp_mem option" where
  "volk_32fc_x2_dot_prod_32fc_a_avx_fma result input taps num_points = do {
     let quarterPoints = unat (num_points div 4);
     (a, b, dotProdVal, mem) \<leftarrow>
        for_loop 0 quarterPoints (\<lambda>number. avx_fma_step input taps)
          (0, 0, mm256_setzero_ps, dp_init result);
     avx_finish input taps num_points dotProdVal mem
   }"


subsection \<open>The NEON kernels\<close>

definition vdupq_n_f32 :: "float \<Rightarrow> m128" where
  "vdupq_n_f32 x = M128 x x x x"

definition vmulq_f32 :: "m128 \<Rightarrow> m128 \<Rightarrow> m128" where
  "vmulq_f32 a b = mm_mul_ps a b"

definition vaddq_f32 :: "m128 \<Rightarrow> m128 \<Rightarrow> m128" where
  "vaddq_f32 a b = mm_add_ps a b"

definition vsubq_f32 :: "m128 \<Rightarrow> m128 \<Rightarrow> m128" where
  "vsubq_f32 a b = mm_sub_ps a b"

text \<open>
  The loop state is \<open>(a_ptr, b_ptr, accumulator, mem)\<close>; \<open>a_ptr\<close> walks \<^verbatim>\<open>taps\<close> and
  \<open>b_ptr\<close> walks \<^verbatim>\<open>input\<close>, in complex samples.  \<^verbatim>\<open>__VOLK_PREFETCH\<close> is a hint
  that reads nothing.
\<close>

fun neon_step ::
  "float list \<Rightarrow> float list \<Rightarrow> nat \<times> nat \<times> (m128 \<times> m128) \<times> dp_mem
     \<Rightarrow> (nat \<times> nat \<times> (m128 \<times> m128) \<times> dp_mem) option" where
  "neon_step input taps (a_ptr, b_ptr, accumulator, mem) = do {
     (a_val, mem1) \<leftarrow> vld2q_f32 Taps taps (2 * a_ptr) mem;
     (b_val, mem2) \<leftarrow> vld2q_f32 Input input (2 * b_ptr) mem1;
     let tmp_real0 = vmulq_f32 (fst a_val) (fst b_val);
     let tmp_real1 = vmulq_f32 (snd a_val) (snd b_val);
     let tmp_imag0 = vmulq_f32 (fst a_val) (snd b_val);
     let tmp_imag1 = vmulq_f32 (snd a_val) (fst b_val);
     let c_val0 = vsubq_f32 tmp_real0 tmp_real1;
     let c_val1 = vaddq_f32 tmp_imag0 tmp_imag1;
     let accumulator = (vaddq_f32 (fst accumulator) c_val0, vaddq_f32 (snd accumulator) c_val1);
     Some (a_ptr + 4, b_ptr + 4, accumulator, mem2)
   }"

fun neon_opttests_step ::
  "float list \<Rightarrow> float list \<Rightarrow> nat \<times> nat \<times> (m128 \<times> m128) \<times> dp_mem
     \<Rightarrow> (nat \<times> nat \<times> (m128 \<times> m128) \<times> dp_mem) option" where
  "neon_opttests_step input taps (a_ptr, b_ptr, accumulator, mem) = do {
     (a_val, mem1) \<leftarrow> vld2q_f32 Taps taps (2 * a_ptr) mem;
     (b_val, mem2) \<leftarrow> vld2q_f32 Input input (2 * b_ptr) mem1;
     let tmp_imag1 = vmulq_f32 (snd a_val) (fst b_val);
     let tmp_imag0 = vmulq_f32 (fst a_val) (fst b_val);
     let tmp_imag1 = vmlaq_f32 tmp_imag1 (fst a_val) (snd b_val);
     let tmp_imag0 = vmlsq_f32 tmp_imag0 (snd a_val) (snd b_val);
     let accumulator =
           (vaddq_f32 (fst accumulator) tmp_imag0, vaddq_f32 (snd accumulator) tmp_imag1);
     Some (a_ptr + 4, b_ptr + 4, accumulator, mem2)
   }"

text \<open>The state of the two-accumulator kernel: \<open>(a_ptr, b_ptr, accumulator1, accumulator2, mem)\<close>.\<close>

fun neon_optfma_step ::
  "float list \<Rightarrow> float list \<Rightarrow> nat \<times> nat \<times> (m128 \<times> m128) \<times> (m128 \<times> m128) \<times> dp_mem
     \<Rightarrow> (nat \<times> nat \<times> (m128 \<times> m128) \<times> (m128 \<times> m128) \<times> dp_mem) option" where
  "neon_optfma_step input taps (a_ptr, b_ptr, accumulator1, accumulator2, mem) = do {
     (a_val, mem1) \<leftarrow> vld2q_f32 Taps taps (2 * a_ptr) mem;
     (b_val, mem2) \<leftarrow> vld2q_f32 Input input (2 * b_ptr) mem1;
     let acc1_0 = vmlaq_f32 (fst accumulator1) (fst a_val) (fst b_val);
     let acc1_1 = vmlaq_f32 (snd accumulator1) (fst a_val) (snd b_val);
     let acc2_0 = vmlsq_f32 (fst accumulator2) (snd a_val) (snd b_val);
     let acc2_1 = vmlaq_f32 (snd accumulator2) (snd a_val) (fst b_val);
     Some (a_ptr + 4, b_ptr + 4, (acc1_0, acc1_1), (acc2_0, acc2_1), mem2)
   }"

fun neon_optfmaunroll_step ::
  "float list \<Rightarrow> float list
     \<Rightarrow> nat \<times> nat \<times> (m128 \<times> m128 \<times> m128 \<times> m128) \<times> (m128 \<times> m128 \<times> m128 \<times> m128) \<times> dp_mem
     \<Rightarrow> (nat \<times> nat \<times> (m128 \<times> m128 \<times> m128 \<times> m128) \<times> (m128 \<times> m128 \<times> m128 \<times> m128) \<times> dp_mem) option" where
  "neon_optfmaunroll_step input taps
     (a_ptr, b_ptr, (p0, p1, p2, p3), (q0, q1, q2, q3), mem) = do {
     ((a0, a1, a2, a3), mem1) \<leftarrow> vld4q_f32 Taps taps (2 * a_ptr) mem;
     ((b0, b1, b2, b3), mem2) \<leftarrow> vld4q_f32 Input input (2 * b_ptr) mem1;
     let p0 = vmlaq_f32 p0 a0 b0;
     let p1 = vmlaq_f32 p1 a0 b1;
     let p2 = vmlaq_f32 p2 a2 b2;
     let p3 = vmlaq_f32 p3 a2 b3;
     let q0 = vmlsq_f32 q0 a1 b1;
     let q1 = vmlaq_f32 q1 a1 b0;
     let q2 = vmlsq_f32 q2 a3 b3;
     let q3 = vmlaq_f32 q3 a3 b2;
     Some (a_ptr + 8, b_ptr + 8, (p0, p1, p2, p3), (q0, q1, q2, q3), mem2)
   }"

text \<open>The tail loop body of the four NEON kernels: \<^verbatim>\<open>*result += (*a_ptr++) * (*b_ptr++);\<close>\<close>

fun neon_tail_step ::
  "float list \<Rightarrow> float list \<Rightarrow> nat \<times> nat \<times> dp_mem \<Rightarrow> (nat \<times> nat \<times> dp_mem) option" where
  "neon_tail_step input taps (a_ptr, b_ptr, mem) = do {
     (x, mem1) \<leftarrow> load_complex Taps taps a_ptr mem;
     (y, mem2) \<leftarrow> load_complex Input input b_ptr mem1;
     Some (a_ptr + 1, b_ptr + 1, add_to_result (cmul x y) mem2)
   }"

text \<open>
  What follows the main loop in the four NEON kernels: the four lanes of the reduced
  accumulator are added and stored to \<^verbatim>\<open>*result\<close>, and the tail loop adds each
  remaining product to \<^verbatim>\<open>*result\<close>.
\<close>

definition neon_finish ::
  "float list \<Rightarrow> float list \<Rightarrow> nat \<Rightarrow> uint \<Rightarrow> nat \<Rightarrow> nat \<Rightarrow> m128 \<times> m128 \<Rightarrow> dp_mem \<Rightarrow> dp_mem option" where
  "neon_finish input taps first num_points a_ptr b_ptr accumulator mem = do {
     let accum_result = vst2q_f32 accumulator;
     let mem1 = store_result (sum4 accum_result) mem;
     (a_ptr, b_ptr, mem2) \<leftarrow>
        for_loop first (unat num_points) (\<lambda>number. neon_tail_step input taps)
          (a_ptr, b_ptr, mem1);
     Some mem2
   }"

definition volk_32fc_x2_dot_prod_32fc_neon ::
  "lv_32fc_t \<Rightarrow> float list \<Rightarrow> float list \<Rightarrow> uint \<Rightarrow> dp_mem option" where
  "volk_32fc_x2_dot_prod_32fc_neon result input taps num_points = do {
     let quarter_points = unat (num_points div 4);
     (a_ptr, b_ptr, accumulator, mem) \<leftarrow>
        for_loop 0 quarter_points (\<lambda>number. neon_step input taps)
          (0, 0, (vdupq_n_f32 f_zero, vdupq_n_f32 f_zero), dp_init result);
     neon_finish input taps (quarter_points * 4) num_points a_ptr b_ptr accumulator mem
   }"

definition volk_32fc_x2_dot_prod_32fc_neon_opttests ::
  "lv_32fc_t \<Rightarrow> float list \<Rightarrow> float list \<Rightarrow> uint \<Rightarrow> dp_mem option" where
  "volk_32fc_x2_dot_prod_32fc_neon_opttests result input taps num_points = do {
     let quarter_points = unat (num_points div 4);
     (a_ptr, b_ptr, accumulator, mem) \<leftarrow>
        for_loop 0 quarter_points (\<lambda>number. neon_opttests_step input taps)
          (0, 0, (vdupq_n_f32 f_zero, vdupq_n_f32 f_zero), dp_init result);
     neon_finish input taps (quarter_points * 4) num_points a_ptr b_ptr accumulator mem
   }"

definition volk_32fc_x2_dot_prod_32fc_neon_optfma ::
  "lv_32fc_t \<Rightarrow> float list \<Rightarrow> float list \<Rightarrow> uint \<Rightarrow> dp_mem option" where
  "volk_32fc_x2_dot_prod_32fc_neon_optfma result input taps num_points = do {
     let quarter_points = unat (num_points div 4);
     (a_ptr, b_ptr, accumulator1, accumulator2, mem) \<leftarrow>
        for_loop 0 quarter_points (\<lambda>number. neon_optfma_step input taps)
          (0, 0, (vdupq_n_f32 f_zero, vdupq_n_f32 f_zero),
                 (vdupq_n_f32 f_zero, vdupq_n_f32 f_zero), dp_init result);
     let accumulator1 = (vaddq_f32 (fst accumulator1) (fst accumulator2),
                         vaddq_f32 (snd accumulator1) (snd accumulator2));
     neon_finish input taps (quarter_points * 4) num_points a_ptr b_ptr accumulator1 mem
   }"

text \<open>In the unrolled kernel the variable \<^verbatim>\<open>quarter_points\<close> is \<^verbatim>\<open>num_points / 8\<close>.\<close>

definition volk_32fc_x2_dot_prod_32fc_neon_optfmaunroll ::
  "lv_32fc_t \<Rightarrow> float list \<Rightarrow> float list \<Rightarrow> uint \<Rightarrow> dp_mem option" where
  "volk_32fc_x2_dot_prod_32fc_neon_optfmaunroll result input taps num_points = do {
     let quarter_points = unat (num_points div 8);
     let z = vdupq_n_f32 f_zero;
     (a_ptr, b_ptr, (p0, p1, p2, p3), (q0, q1, q2, q3), mem) \<leftarrow>
        for_loop 0 quarter_points (\<lambda>number. neon_optfmaunroll_step input taps)
          (0, 0, (z, z, z, z), (z, z, z, z), dp_init result);
     let p0 = vaddq_f32 p0 p2;
     let p1 = vaddq_f32 p1 p3;
     let q0 = vaddq_f32 q0 q2;
     let q1 = vaddq_f32 q1 q3;
     let reduced_accumulator = (vaddq_f32 p0 q0, vaddq_f32 p1 q1);
     neon_finish input taps (quarter_points * 8) num_points a_ptr b_ptr reduced_accumulator mem
   }"


section \<open>Reference formulas\<close>

text \<open>
  What one output element is, as a function of the real component \<open>x\<close> of its sample:
  the scalar statement \<^verbatim>\<open>(int16_t)rintf(x * scalar)\<close>, and one lane of the AVX2
  block, \<^verbatim>\<open>_mm256_cvtps_epi32\<close> followed by the saturating \<^verbatim>\<open>_mm256_packs_epi32\<close>.
\<close>

definition scalar_formula :: "float \<Rightarrow> float \<Rightarrow> int16_t" where
  "scalar_formula scalar x = int16_of_float (rintf (fmul x scalar))"

definition avx2_formula :: "float \<Rightarrow> float \<Rightarrow> int16_t" where
  "avx2_formula scalar x = saturate_int16 (cvtps_epi32_lane (fmul x scalar))"

text \<open>
  The real number that a finite float stands for, \<open>(-1)^s * m * 2^e\<close>; the integer
  nearest to a real number, a tie going to the even integer; and what it is for a float
  \<open>p\<close> to be the binary32 rounding of a real number \<open>r\<close> to nearest, ties to even:
  \<open>p\<close> is finite, no finite float is nearer to \<open>r\<close>, and if a finite float of another
  value is as near, the last bit of the fraction of \<open>p\<close> is 0.
\<close>

definition f_finite :: "float \<Rightarrow> bool" where
  "f_finite x = (case f_unpack x of FFin s m e \<Rightarrow> True | _ \<Rightarrow> False)"

definition f_val :: "float \<Rightarrow> real" where
  "f_val x = (case f_unpack x of FFin s m e \<Rightarrow> of_int (with_sign s m) * 2 powi e | _ \<Rightarrow> 0)"

definition round_half_even :: "real \<Rightarrow> int" where
  "round_half_even v =
     (let n = \<lfloor>v\<rfloor>; d = v - of_int n
      in if d < 1 / 2 then n else if 1 / 2 < d then n + 1 else if even n then n else n + 1)"

definition nearest_binary32 :: "real \<Rightarrow> float \<Rightarrow> bool" where
  "nearest_binary32 r p \<longleftrightarrow>
     f_finite p \<and>
     (\<forall>z. f_finite z \<longrightarrow>
        \<bar>f_val p - r\<bar> \<le> \<bar>f_val z - r\<bar>
        \<and> (\<bar>f_val p - r\<bar> = \<bar>f_val z - r\<bar> \<and> f_val z \<noteq> f_val p \<longrightarrow> even (f_frac p)))"

text \<open>
  The frame of a deinterleave call on \<open>n\<close> points: the output buffer keeps its length
  and its elements from \<open>n\<close> on, and the elements \<open>0, ..., n - 1\<close> are each written
  once, in this order.
\<close>

definition deint_frame :: "int16_t list \<Rightarrow> nat \<Rightarrow> deint_state \<Rightarrow> bool" where
  "deint_frame iBuffer n s \<longleftrightarrow>
     length (iBuf s) = length iBuffer \<and> drop n (iBuf s) = drop n iBuffer \<and> wr_log s = [0..<n]"

text \<open>The ten kernels other than the generic one, in the order of the header.\<close>

definition dot_prod_variants :: "(lv_32fc_t \<Rightarrow> float list \<Rightarrow> float list \<Rightarrow> uint \<Rightarrow> dp_mem option) list" where
  "dot_prod_variants =
     [volk_32fc_x2_dot_prod_32fc_u_sse3, volk_32fc_x2_dot_prod_32fc_u_avx,
      volk_32fc_x2_dot_prod_32fc_u_avx_fma, volk_32fc_x2_dot_prod_32fc_a_sse3,
      volk_32fc_x2_dot_prod_32fc_neon, volk_32fc_x2_dot_prod_32fc_neon_opttests,
      volk_32fc_x2_dot_prod_32fc_neon_optfma, volk_32fc_x2_dot_prod_32fc_neon_optfmaunroll,
      volk_32fc_x2_dot_prod_32fc_a_avx, volk_32fc_x2_dot_prod_32fc_a_avx_fma]"

text \<open>
  A memory in which \<^verbatim>\<open>*result\<close> still holds the caller's value and has not been
  stored to.
\<close>

definition quiet :: "lv_32fc_t \<Rightarrow> dp_mem \<Rightarrow> bool" where
  "quiet result mem \<longleftrightarrow> writes mem = [] \<and> result_cell mem = result"

text \<open>The bit pattern of \<open>-0\<close>.\<close>

definition f_neg_zero :: float where
  "f_neg_zero = 0x80000000"






section \<open>Loops\<close>

lemma for_loop_stop: "bound \<le> number \<Longrightarrow> for_loop number bound body s = Some s"
  by (subst for_loop.simps) simp

lemma for_loop_step:
  "number < bound \<Longrightarrow> for_loop number bound body s =
     (case body number s of None \<Rightarrow> None | Some s' \<Rightarrow> for_loop (Suc number) bound body s')"
  by (subst for_loop.simps) simp

lemma for_loop_snoc:
  "number \<le> bound \<Longrightarrow> for_loop number (Suc bound) body s =
     (case for_loop number bound body s of None \<Rightarrow> None | Some t \<Rightarrow> body bound t)"
proof (induction "bound - number" arbitrary: number s)
  case 0
  then have "number = bound" by simp
  then show ?case
    by (simp add: for_loop_stop for_loop_step split: option.splits)
next
  case (Suc k)
  then have lt: "number < bound" by simp
  show ?case
  proof (cases "body number s")
    case None
    with lt show ?thesis by (simp add: for_loop_step)
  next
    case (Some s')
    have "for_loop (Suc number) (Suc bound) body s' =
            (case for_loop (Suc number) bound body s' of None \<Rightarrow> None | Some t \<Rightarrow> body bound t)"
      using Suc.hyps(1) [of "Suc number" s'] Suc.hyps(2) lt by simp
    with lt Some show ?thesis by (simp add: for_loop_step)
  qed
qed

lemma for_loop_invariant:
  assumes "P number s" "number \<le> bound"
    and step: "\<And>i t. number \<le> i \<Longrightarrow> i < bound \<Longrightarrow> P i t \<Longrightarrow> \<exists>t'. body i t = Some t' \<and> P (Suc i) t'"
  shows "\<exists>t. for_loop number bound body s = Some t \<and> P bound t"
  using assms(2) step
proof (induction bound)
  case 0
  then show ?case using assms(1) by (simp add: for_loop_stop)
next
  case (Suc bound)
  show ?case
  proof (cases "number = Suc bound")
    case True
    then show ?thesis using assms(1) by (auto simp add: for_loop_stop)
  next
    case False
    then have le: "number \<le> bound" using Suc.prems(1) by simp
    have "\<exists>t. for_loop number bound body s = Some t \<and> P bound t"
      using le Suc.prems(2) by (intro Suc.IH) auto
    then obtain t where t: "for_loop number bound body s = Some t" "P bound t" by blast
    obtain t' where "body bound t = Some t'" "P (Suc bound) t'"
      using Suc.prems(2) [OF le _ t(2)] by auto
    then show ?thesis using le t by (simp add: for_loop_snoc)
  qed
qed



section \<open>The deinterleave kernels run\<close>

lemma scalar_loop_run:
  assumes "complexVectorPtr s = 2 * a" "iBufferPtr s = a" "a \<le> b" "b \<le> length (iBuf s)"
    and "a < b \<Longrightarrow> 2 * b - 1 \<le> length cv"
  shows "for_loop a b (\<lambda>number. scalar_step cv scalar) s =
     Some (s\<lparr>iBuf := take a (iBuf s) @ map (\<lambda>i. scalar_formula scalar (cv ! (2 * i))) [a..<b]
                       @ drop b (iBuf s),
             complexVectorPtr := 2 * b, iBufferPtr := b,
             rd_log := rd_log s @ map (\<lambda>i. 2 * i) [a..<b],
             wr_log := wr_log s @ [a..<b]\<rparr>)"
  using assms(3-5)
proof (induction b)
  case 0
  then show ?case using assms(1,2) by (simp add: for_loop_stop)
next
  case (Suc b)
  show ?case
  proof (cases "a = Suc b")
    case True
    then show ?thesis using assms(1,2) by (simp add: for_loop_stop)
  next
    case False
    then have ab: "a \<le> b" using Suc.prems by simp
    have len: "b < length (iBuf s)" "2 * b < length cv" using Suc.prems ab by auto
    have IH: "for_loop a b (\<lambda>number. scalar_step cv scalar) s =
     Some (s\<lparr>iBuf := take a (iBuf s) @ map (\<lambda>i. scalar_formula scalar (cv ! (2 * i))) [a..<b]
                       @ drop b (iBuf s),
             complexVectorPtr := 2 * b, iBufferPtr := b,
             rd_log := rd_log s @ map (\<lambda>i. 2 * i) [a..<b],
             wr_log := wr_log s @ [a..<b]\<rparr>)"
      using Suc.IH ab len by simp
    have upd: "(take a (iBuf s) @ map f [a..<b] @ drop b (iBuf s))[b := v]
        = take a (iBuf s) @ map f [a..<b] @ v # drop (Suc b) (iBuf s)" for f v
      using ab len(1)
      by (simp add: list_update_append min_absorb2 Cons_nth_drop_Suc [symmetric] )
    have "for_loop a (Suc b) (\<lambda>number. scalar_step cv scalar) s =
       scalar_step cv scalar (s\<lparr>iBuf := take a (iBuf s) @ map (\<lambda>i. scalar_formula scalar (cv ! (2 * i))) [a..<b]
                       @ drop b (iBuf s),
             complexVectorPtr := 2 * b, iBufferPtr := b,
             rd_log := rd_log s @ map (\<lambda>i. 2 * i) [a..<b],
             wr_log := wr_log s @ [a..<b]\<rparr>)"
      using ab by (simp add: for_loop_snoc IH)
    also have "\<dots> = Some (s\<lparr>iBuf := take a (iBuf s) @ map (\<lambda>i. scalar_formula scalar (cv ! (2 * i))) [a..<Suc b]
                       @ drop (Suc b) (iBuf s),
             complexVectorPtr := 2 * Suc b, iBufferPtr := Suc b,
             rd_log := rd_log s @ map (\<lambda>i. 2 * i) [a..<Suc b],
             wr_log := wr_log s @ [a..<Suc b]\<rparr>)"
      using ab len
      by (simp add: scalar_step_def load_float_def store_int16_def upd
          scalar_formula_def min_absorb2)
    finally show ?thesis .
  qed
qed


lemma lo16_pair16: "lo16 (pair16 a b) = a"
  unfolding lo16_def pair16_def
  by (rule bit_word_eqI) (auto simp add: bit_simps)

lemma hi16_pair16: "hi16 (pair16 a b) = b"
  unfolding hi16_def pair16_def
  by (rule bit_word_eqI) (auto simp add: bit_simps)

lemma upt_add4: "[0..<4 * Suc m] = [0..<4 * m] @ [4 * m, 4 * m + 1, 4 * m + 2, 4 * m + 3]"
proof -
  have "[0..<4 * Suc m] = [0..<4 * m] @ [4 * m..<4 * m + 4]"
    by (metis le_add1 mult_Suc_right add.commute upt_add_eq_append zero_le add_0)
  also have "[4 * m..<4 * m + 4] = [4 * m, 4 * m + 1, 4 * m + 2, 4 * m + 3]"
    by (simp add: upt_rec)
  finally show ?thesis .
qed

lemma drop_4:
  assumes "n + 4 \<le> length xs"
  shows "drop n xs = xs ! n # xs ! (n + 1) # xs ! (n + 2) # xs ! (n + 3) # drop (n + 4) xs"
proof -
  have "drop n xs = xs ! n # drop (Suc n) xs"
    "drop (Suc n) xs = xs ! Suc n # drop (Suc (Suc n)) xs"
    "drop (Suc (Suc n)) xs = xs ! Suc (Suc n) # drop (Suc (Suc (Suc n))) xs"
    "drop (Suc (Suc (Suc n))) xs = xs ! Suc (Suc (Suc n)) # drop (Suc (Suc (Suc (Suc n)))) xs"
    using assms by (simp_all add: Cons_nth_drop_Suc)
  then show ?thesis by (simp add: eval_nat_numeral)
qed

lemma sse_step_run:
  assumes "complexVectorPtr s = 8 * i" "iBufferPtr s = 4 * i" "8 * i + 8 \<le> length cv"
    "iBuf s = xs @ drop (4 * i) ib" "length xs = 4 * i" "4 * i + 4 \<le> length ib"
  shows "sse_step cv (mm_set_ps1 scalar) s =
     Some \<lparr>iBuf = xs @ [scalar_formula scalar (cv ! (8 * i)), scalar_formula scalar (cv ! (8 * i + 2)),
                           scalar_formula scalar (cv ! (8 * i + 4)), scalar_formula scalar (cv ! (8 * i + 6))]
                       @ drop (4 * i + 4) ib,
             complexVectorPtr = 8 * i + 8, iBufferPtr = 4 * i + 4,
             rd_log = rd_log s @ [8 * i, 8 * i + 1, 8 * i + 2, 8 * i + 3, 8 * i + 4, 8 * i + 5, 8 * i + 6, 8 * i + 7],
             wr_log = wr_log s @ [4 * i, 4 * i + 1, 4 * i + 2, 4 * i + 3]\<rparr>"
proof (cases s)
  case (fields b c p r w)
  have d: "drop (4 * i) ib = ib ! (4 * i) # ib ! (4 * i + 1) # ib ! (4 * i + 2) # ib ! (4 * i + 3) # drop (4 * i + 4) ib"
    using assms(6) by (rule drop_4)
  show ?thesis
    using assms fields
    by (simp add: sse_step_def mm_load_ps_def store_int16_def mm_set_ps1_def mm_shuffle_ps_def
        MM_SHUFFLE_def scalar_formula_def Let_def d list_update_append)
      (auto simp add: add.commute)
qed


lemma upt_add8: "[0..<8 * Suc m] = [0..<8 * m] @ [8 * m, 8 * m + 1, 8 * m + 2, 8 * m + 3, 8 * m + 4, 8 * m + 5, 8 * m + 6, 8 * m + 7]"
proof -
  have "[0..<8 * Suc m] = [0..<8 * m] @ [8 * m..<8 * m + 8]"
    by (metis le_add1 mult_Suc_right add.commute upt_add_eq_append add_0)
  also have "[8 * m..<8 * m + 8] = [8 * m, 8 * m + 1, 8 * m + 2, 8 * m + 3, 8 * m + 4, 8 * m + 5, 8 * m + 6, 8 * m + 7]"
    by (simp add: upt_rec)
  finally show ?thesis .
qed

lemma upt_add16: "[0..<16 * Suc m] = [0..<16 * m] @ [16 * m, 16 * m + 1, 16 * m + 2, 16 * m + 3, 16 * m + 4, 16 * m + 5, 16 * m + 6, 16 * m + 7,
   16 * m + 8, 16 * m + 9, 16 * m + 10, 16 * m + 11, 16 * m + 12, 16 * m + 13, 16 * m + 14, 16 * m + 15]"
proof -
  have "[0..<16 * Suc m] = [0..<16 * m] @ [16 * m..<16 * m + 16]"
    by (metis le_add1 mult_Suc_right add.commute upt_add_eq_append add_0)
  also have "[16 * m..<16 * m + 16] = [16 * m, 16 * m + 1, 16 * m + 2, 16 * m + 3, 16 * m + 4, 16 * m + 5, 16 * m + 6, 16 * m + 7,
   16 * m + 8, 16 * m + 9, 16 * m + 10, 16 * m + 11, 16 * m + 12, 16 * m + 13, 16 * m + 14, 16 * m + 15]"
    by (simp add: upt_rec)
  finally show ?thesis .
qed

lemma avx2_step_run:
  assumes "complexVectorPtr s = 16 * i" "iBufferPtr s = 8 * i" "16 * i + 16 \<le> length cv"
    "iBuf s = xs @ drop (8 * i) ib" "length xs = 8 * i" "8 * i + 8 \<le> length ib"
  shows "avx2_step cv (mm256_set1_ps scalar) (mm256_set_epi32 3 3 3 3 5 1 4 0) s =
     Some \<lparr>iBuf = xs @ [avx2_formula scalar (cv ! (16 * i)), avx2_formula scalar (cv ! (16 * i + 2)),
                        avx2_formula scalar (cv ! (16 * i + 4)), avx2_formula scalar (cv ! (16 * i + 6)),
                        avx2_formula scalar (cv ! (16 * i + 8)), avx2_formula scalar (cv ! (16 * i + 10)),
                        avx2_formula scalar (cv ! (16 * i + 12)), avx2_formula scalar (cv ! (16 * i + 14))]
                       @ drop (8 * i + 8) ib,
             complexVectorPtr = 16 * i + 16, iBufferPtr = 8 * i + 8,
             rd_log = rd_log s @ [16 * i, 16 * i + 1, 16 * i + 2, 16 * i + 3, 16 * i + 4, 16 * i + 5, 16 * i + 6, 16 * i + 7,
   16 * i + 8, 16 * i + 9, 16 * i + 10, 16 * i + 11, 16 * i + 12, 16 * i + 13, 16 * i + 14, 16 * i + 15],
             wr_log = wr_log s @ [8 * i, 8 * i + 1, 8 * i + 2, 8 * i + 3, 8 * i + 4, 8 * i + 5, 8 * i + 6, 8 * i + 7]\<rparr>"
proof (cases s)
  case (fields b c p r w)
  show ?thesis
    using assms fields
    by (simp add: avx2_step_def mm256_load_ps_def mm_store_si128_def mm256_set1_ps_def
        mm256_shuffle_ps_def mm_shuffle_ps_def mm256_set_epi32_def
        MM_SHUFFLE_def avx2_formula_def Let_def lo16_pair16 hi16_pair16)
      (auto simp add: add.commute)
qed


lemma sse_loop_run:
  assumes "8 * m \<le> length cv" "4 * m \<le> length ib"
  shows "for_loop 0 m (\<lambda>number. sse_step cv (mm_set_ps1 scalar)) (deint_init ib) =
     Some \<lparr>iBuf = map (\<lambda>j. scalar_formula scalar (cv ! (2 * j))) [0..<4 * m] @ drop (4 * m) ib,
            complexVectorPtr = 8 * m, iBufferPtr = 4 * m,
            rd_log = [0..<8 * m], wr_log = [0..<4 * m]\<rparr>"
  using assms
proof (induction m)
  case 0
  then show ?case by (simp add: for_loop_stop deint_init_def)
next
  case (Suc m)
  let ?t = "\<lparr>iBuf = map (\<lambda>j. scalar_formula scalar (cv ! (2 * j))) [0..<4 * m] @ drop (4 * m) ib,
            complexVectorPtr = 8 * m, iBufferPtr = 4 * m,
            rd_log = [0..<8 * m], wr_log = [0..<4 * m]\<rparr>"
  have IH: "for_loop 0 m (\<lambda>number. sse_step cv (mm_set_ps1 scalar)) (deint_init ib) = Some ?t"
    using Suc by simp
  have "for_loop 0 (Suc m) (\<lambda>number. sse_step cv (mm_set_ps1 scalar)) (deint_init ib) =
          sse_step cv (mm_set_ps1 scalar) ?t"
    by (simp add: for_loop_snoc IH)
  also have "\<dots> = Some \<lparr>iBuf = map (\<lambda>j. scalar_formula scalar (cv ! (2 * j))) [0..<4 * m] @
                        [scalar_formula scalar (cv ! (8 * m)), scalar_formula scalar (cv ! (8 * m + 2)),
                         scalar_formula scalar (cv ! (8 * m + 4)), scalar_formula scalar (cv ! (8 * m + 6))]
                       @ drop (4 * m + 4) ib,
             complexVectorPtr = 8 * m + 8, iBufferPtr = 4 * m + 4,
             rd_log = rd_log ?t @ [8 * m, 8 * m + 1, 8 * m + 2, 8 * m + 3, 8 * m + 4, 8 * m + 5, 8 * m + 6, 8 * m + 7],
             wr_log = wr_log ?t @ [4 * m, 4 * m + 1, 4 * m + 2, 4 * m + 3]\<rparr>"
    using Suc.prems by (intro sse_step_run) simp_all
  also have "\<dots> = Some \<lparr>iBuf = map (\<lambda>j. scalar_formula scalar (cv ! (2 * j))) [0..<4 * Suc m] @ drop (4 * Suc m) ib,
            complexVectorPtr = 8 * Suc m, iBufferPtr = 4 * Suc m,
            rd_log = [0..<8 * Suc m], wr_log = [0..<4 * Suc m]\<rparr>"
    unfolding upt_add4 upt_add8
    by (simp add: add.commute) (rule arg_cong [where f = "\<lambda>k. scalar_formula scalar (cv ! k)"], arith)
  finally show ?case .
qed

lemma avx2_loop_run:
  assumes "16 * m \<le> length cv" "8 * m \<le> length ib"
  shows "for_loop 0 m (\<lambda>number. avx2_step cv (mm256_set1_ps scalar) (mm256_set_epi32 3 3 3 3 5 1 4 0)) (deint_init ib) =
     Some \<lparr>iBuf = map (\<lambda>j. avx2_formula scalar (cv ! (2 * j))) [0..<8 * m] @ drop (8 * m) ib,
            complexVectorPtr = 16 * m, iBufferPtr = 8 * m,
            rd_log = [0..<16 * m], wr_log = [0..<8 * m]\<rparr>"
  using assms
proof (induction m)
  case 0
  then show ?case by (simp add: for_loop_stop deint_init_def)
next
  case (Suc m)
  let ?body = "\<lambda>number::nat. avx2_step cv (mm256_set1_ps scalar) (mm256_set_epi32 3 3 3 3 5 1 4 0)"
  let ?t = "\<lparr>iBuf = map (\<lambda>j. avx2_formula scalar (cv ! (2 * j))) [0..<8 * m] @ drop (8 * m) ib,
            complexVectorPtr = 16 * m, iBufferPtr = 8 * m,
            rd_log = [0..<16 * m], wr_log = [0..<8 * m]\<rparr>"
  have IH: "for_loop 0 m ?body (deint_init ib) = Some ?t"
    using Suc by simp
  have "for_loop 0 (Suc m) ?body (deint_init ib) = ?body m ?t"
    by (simp add: for_loop_snoc IH)
  also have "\<dots> = Some \<lparr>iBuf = map (\<lambda>j. avx2_formula scalar (cv ! (2 * j))) [0..<8 * m] @
                       [avx2_formula scalar (cv ! (16 * m)), avx2_formula scalar (cv ! (16 * m + 2)),
                        avx2_formula scalar (cv ! (16 * m + 4)), avx2_formula scalar (cv ! (16 * m + 6)),
                        avx2_formula scalar (cv ! (16 * m + 8)), avx2_formula scalar (cv ! (16 * m + 10)),
                        avx2_formula scalar (cv ! (16 * m + 12)), avx2_formula scalar (cv ! (16 * m + 14))]
                       @ drop (8 * m + 8) ib,
             complexVectorPtr = 16 * m + 16, iBufferPtr = 8 * m + 8,
             rd_log = rd_log ?t @ [16 * m, 16 * m + 1, 16 * m + 2, 16 * m + 3, 16 * m + 4, 16 * m + 5, 16 * m + 6, 16 * m + 7,
   16 * m + 8, 16 * m + 9, 16 * m + 10, 16 * m + 11, 16 * m + 12, 16 * m + 13, 16 * m + 14, 16 * m + 15],
             wr_log = wr_log ?t @ [8 * m, 8 * m + 1, 8 * m + 2, 8 * m + 3, 8 * m + 4, 8 * m + 5, 8 * m + 6, 8 * m + 7]\<rparr>"
    using Suc.prems by (intro avx2_step_run) simp_all
  also have "\<dots> = Some \<lparr>iBuf = map (\<lambda>j. avx2_formula scalar (cv ! (2 * j))) [0..<8 * Suc m] @ drop (8 * Suc m) ib,
            complexVectorPtr = 16 * Suc m, iBufferPtr = 8 * Suc m,
            rd_log = [0..<16 * Suc m], wr_log = [0..<8 * Suc m]\<rparr>"
    unfolding upt_add8 upt_add16
    by (simp add: add.commute) (rule arg_cong [where f = "\<lambda>k. avx2_formula scalar (cv ! k)"], arith)
  finally show ?case .
qed

lemma generic_run:
  assumes "unat num_points \<le> length ib" "2 * unat num_points - 1 \<le> length cv"
  shows "volk_32fc_s32f_deinterleave_real_16i_generic ib cv scalar num_points =
     Some \<lparr>iBuf = map (\<lambda>i. scalar_formula scalar (cv ! (2 * i))) [0..<unat num_points]
                    @ drop (unat num_points) ib,
            complexVectorPtr = 2 * unat num_points, iBufferPtr = unat num_points,
            rd_log = map (\<lambda>i. 2 * i) [0..<unat num_points],
            wr_log = [0..<unat num_points]\<rparr>"
  unfolding volk_32fc_s32f_deinterleave_real_16i_generic_def
  using assms
  by (subst scalar_loop_run) (simp_all add: deint_init_def)

lemma a_sse_run:
  assumes "unat num_points \<le> length ib" "2 * unat num_points \<le> length cv"
  shows "volk_32fc_s32f_deinterleave_real_16i_a_sse ib cv scalar num_points =
     Some \<lparr>iBuf = map (\<lambda>i. scalar_formula scalar (cv ! (2 * i))) [0..<unat num_points]
                    @ drop (unat num_points) ib,
            complexVectorPtr = 2 * unat num_points, iBufferPtr = unat num_points,
            rd_log = [0..<8 * (unat num_points div 4)]
                     @ map (\<lambda>i. 2 * i) [4 * (unat num_points div 4)..<unat num_points],
            wr_log = [0..<unat num_points]\<rparr>"
proof -
  let ?n = "unat num_points"
  let ?m = "?n div 4"
  have q: "unat (num_points div 4) = ?m" by (simp add: unat_div)
  have b: "8 * ?m \<le> length cv" "4 * ?m \<le> length ib" "4 * ?m \<le> ?n" using assms by auto
  have up: "[0..<?n] = [0..<4 * ?m] @ [4 * ?m..<?n]"
    using b(3) by (metis upt_add_eq_append le_add_diff_inverse zero_le)
  show ?thesis
    unfolding volk_32fc_s32f_deinterleave_real_16i_a_sse_def q Let_def
    apply (simp only: sse_loop_run [OF b(1,2)] bind.bind_lunit mult.commute [of ?m 4])
    apply (subst scalar_loop_run)
    using assms b apply (simp_all)
    apply (simp only: map_append [symmetric] up [symmetric] simp_thms)
    done
qed


lemma avx2_run_aux:
  assumes "unat (num_points :: uint) \<le> length ib" "2 * unat num_points \<le> length cv"
  shows "do {
     let eighthPoints = unat (num_points div 8);
     let idx = mm256_set_epi32 3 3 3 3 5 1 4 0;
     s \<leftarrow> for_loop 0 eighthPoints
            (\<lambda>number. avx2_step cv (mm256_set1_ps scalar) idx) (deint_init ib);
     let number = eighthPoints * 8;
     for_loop number (unat num_points) (\<lambda>number. scalar_step cv scalar)
       (s\<lparr>iBufferPtr := number\<rparr>)
   } =
     Some \<lparr>iBuf = map (\<lambda>i. avx2_formula scalar (cv ! (2 * i))) [0..<8 * (unat num_points div 8)]
                    @ map (\<lambda>i. scalar_formula scalar (cv ! (2 * i)))
                        [8 * (unat num_points div 8)..<unat num_points]
                    @ drop (unat num_points) ib,
            complexVectorPtr = 2 * unat num_points, iBufferPtr = unat num_points,
            rd_log = [0..<16 * (unat num_points div 8)]
                     @ map (\<lambda>i. 2 * i) [8 * (unat num_points div 8)..<unat num_points],
            wr_log = [0..<unat num_points]\<rparr>"
proof -
  let ?n = "unat num_points"
  let ?m = "?n div 8"
  have q: "unat (num_points div 8) = ?m" by (simp add: unat_div)
  have b: "16 * ?m \<le> length cv" "8 * ?m \<le> length ib" "8 * ?m \<le> ?n" using assms by auto
  have up: "[0..<?n] = [0..<8 * ?m] @ [8 * ?m..<?n]"
    using b(3) by (metis upt_add_eq_append le_add_diff_inverse zero_le)
  show ?thesis
    unfolding q Let_def
    apply (simp only: avx2_loop_run [OF b(1,2)] bind.bind_lunit mult.commute [of ?m 8])
    apply (subst scalar_loop_run)
    using assms b apply (simp_all)
    apply (simp only: up [symmetric] simp_thms)
    done
qed

lemma a_avx2_run:
  assumes "unat num_points \<le> length ib" "2 * unat num_points \<le> length cv"
  shows "volk_32fc_s32f_deinterleave_real_16i_a_avx2 ib cv scalar num_points =
     Some \<lparr>iBuf = map (\<lambda>i. avx2_formula scalar (cv ! (2 * i))) [0..<8 * (unat num_points div 8)]
                    @ map (\<lambda>i. scalar_formula scalar (cv ! (2 * i)))
                        [8 * (unat num_points div 8)..<unat num_points]
                    @ drop (unat num_points) ib,
            complexVectorPtr = 2 * unat num_points, iBufferPtr = unat num_points,
            rd_log = [0..<16 * (unat num_points div 8)]
                     @ map (\<lambda>i. 2 * i) [8 * (unat num_points div 8)..<unat num_points],
            wr_log = [0..<unat num_points]\<rparr>"
  unfolding volk_32fc_s32f_deinterleave_real_16i_a_avx2_def using assms by (rule avx2_run_aux)

lemma u_avx2_run:
  assumes "unat num_points \<le> length ib" "2 * unat num_points \<le> length cv"
  shows "volk_32fc_s32f_deinterleave_real_16i_u_avx2 ib cv scalar num_points =
     Some \<lparr>iBuf = map (\<lambda>i. avx2_formula scalar (cv ! (2 * i))) [0..<8 * (unat num_points div 8)]
                    @ map (\<lambda>i. scalar_formula scalar (cv ! (2 * i)))
                        [8 * (unat num_points div 8)..<unat num_points]
                    @ drop (unat num_points) ib,
            complexVectorPtr = 2 * unat num_points, iBufferPtr = unat num_points,
            rd_log = [0..<16 * (unat num_points div 8)]
                     @ map (\<lambda>i. 2 * i) [8 * (unat num_points div 8)..<unat num_points],
            wr_log = [0..<unat num_points]\<rparr>"
  unfolding volk_32fc_s32f_deinterleave_real_16i_u_avx2_def using assms by (rule avx2_run_aux)



section \<open>Evaluating the arithmetic\<close>

lemma nbits_0: "nbits 0 = 0"
  by (simp add: nbits.simps)

lemma nbits_1: "nbits 1 = 1"
  by (simp add: nbits.simps)

lemma nbits_Suc0: "nbits (Suc 0) = 1"
  by (simp add: nbits.simps)

lemma nbits_Bit0: "nbits (numeral (Num.Bit0 k)) = Suc (nbits (numeral k))"
  by (subst nbits.simps) (simp flip: numeral_Bit0_eq_double)

lemma nbits_Bit1: "nbits (numeral (Num.Bit1 k)) = Suc (nbits (numeral k))"
  by (subst nbits.simps) simp

lemmas float_eval = fadd_def fmul_def fsub_def fneg_def ffma_def rintf_def f_unpack_def
  f_expo_def f_frac_def f_sign_def f_sum_def with_sign_def f_round_def f_pack_def f_inf_def
  f_qnan_def f_zero_def nbits_0 nbits_1 nbits_Suc0 nbits_Bit0 nbits_Bit1 rne_shift_def Let_def
  cvttss2si_def int16_of_float_def int32_or_indefinite_def cvtps_epi32_lane_def
  saturate_int16_def

section \<open>Facts of the arithmetic\<close>

lemma scalar_formula_40000: "scalar_formula 0x3F800000 0x471C4000 = 0x9C40"
  by (simp add: scalar_formula_def float_eval)

lemma avx2_formula_40000: "avx2_formula 0x3F800000 0x471C4000 = 0x7FFF"
  by (simp add: avx2_formula_def float_eval)

lemma fadd_zero_zero: "fadd f_zero f_zero = f_zero"
  by (simp add: float_eval)

lemma cadd_zero_zero: "cadd c_zero c_zero = c_zero"
  by (simp add: cadd_def c_zero_def fadd_zero_zero)

lemma fmul_commute: "fmul x y = fmul y x"
proof -
  have e: "(a = (\<not> b)) = (b = (\<not> a))" for a b by auto
  show ?thesis
    by (auto simp add: fmul_def mult.commute add.commute e [of "_ :: bool"] split: fval.splits)
qed

lemma f_sum_commute: "f_sum s m e t n d = f_sum t n d s m e"
  by (simp add: f_sum_def Let_def min.commute add.commute conj_commute)

lemma fadd_commute: "fadd x y = fadd y x"
  by (auto simp add: fadd_def f_sum_commute split: fval.splits)

lemma cmul_commute: "cmul x y = cmul y x"
  by (simp add: cmul_def fmul_commute [of "fst x"] fmul_commute [of "snd x"]
      fadd_commute [of "fmul (fst y) (snd x)"])

subsection \<open>Packing, rounding and the zeros\<close>

lemma unat_fields:
  "unat (x :: float) = (if f_sign x then 2 ^ 31 else 0) + f_expo x * 2 ^ 23 + f_frac x"
proof -
  let ?u = "unat x"
  have u: "?u < 2 ^ 32" using unsigned_less [of x] by simp
  then have h: "?u div 2 ^ 23 < 512" by simp
  have s: "(2 ^ 31 \<le> ?u) = (256 \<le> ?u div 2 ^ 23)"
    using less_eq_div_iff_mult_less_eq [of "2 ^ 23" 256 ?u] by simp
  have "?u div 2 ^ 23 = (if f_sign x then 256 else 0) + f_expo x"
    unfolding f_sign_def f_expo_def s using h
    by (auto simp add: mod_if not_le) 
  moreover have "?u = (?u div 2 ^ 23) * 2 ^ 23 + f_frac x"
    by (simp add: f_frac_def)
  ultimately show ?thesis by (simp add: algebra_simps split: if_splits)
qed

lemma f_pack_fields: "f_pack (f_sign x) (f_expo x) (f_frac x) = x"
  unfolding f_pack_def unat_fields [symmetric] by simp

lemma unat_f_pack:
  assumes "e < 256" "f < 2 ^ 23"
  shows "unat (f_pack s e f) = (if s then 2 ^ 31 else 0) + e * 2 ^ 23 + f"
proof -
  have "e * 2 ^ 23 \<le> 255 * 2 ^ 23" using assms(1) by simp
  then have "(if s then 2 ^ 31 else 0) + e * 2 ^ 23 + f < (2 :: nat) ^ 32"
    using assms(2) by (simp split: if_splits)
  then show ?thesis
    unfolding f_pack_def unat_of_nat by simp
qed

lemma fields_f_pack:
  assumes "e < 256" "f < 2 ^ 23"
  shows "f_sign (f_pack s e f) = s" "f_expo (f_pack s e f) = e" "f_frac (f_pack s e f) = f"
proof -
  have b: "e * 2 ^ 23 + f < 2 ^ 31"
  proof -
    have "e * 2 ^ 23 \<le> 255 * 2 ^ 23" using assms(1) by simp
    then show ?thesis using assms(2) by simp
  qed
  show "f_sign (f_pack s e f) = s"
    unfolding f_sign_def unat_f_pack [OF assms] using b by (simp split: if_splits)
  have "((if s then 256 else 0) + e) * 2 ^ 23 + f = (if s then 2 ^ 31 else 0) + e * 2 ^ 23 + f"
    by (simp add: algebra_simps)
  then have d: "((if s then 2 ^ 31 else 0) + e * 2 ^ 23 + f) div 2 ^ 23 = (if s then 256 else 0) + e"
    using assms(2) div_mult_self3 [of "2 ^ 23 :: nat" f "(if s then 256 else 0) + e"]
    by (simp add: add.commute)
  show "f_expo (f_pack s e f) = e"
    unfolding f_expo_def unat_f_pack [OF assms] d using assms(1) by simp
  have "(if s then 2 ^ 31 else 0) + e * 2 ^ 23 + f = f + ((if s then 256 else 0) + e) * 2 ^ 23"
    by (simp add: algebra_simps)
  then have m: "((if s then 2 ^ 31 else 0) + e * 2 ^ 23 + f) mod 2 ^ 23 = f"
    using assms(2) by (simp only: mod_mult_self1 mod_less)
  show "f_frac (f_pack s e f) = f"
    unfolding f_frac_def unat_f_pack [OF assms] m ..
qed


lemma nbits_less: "m < 2 ^ nbits m"
proof (induction m rule: nbits.induct)
  case (1 n)
  show ?case
  proof (cases "n = 0")
    case True
    then show ?thesis by (simp add: nbits.simps)
  next
    case False
    then have "n div 2 < 2 ^ nbits (n div 2)" using 1 by simp
    then have "n < 2 * 2 ^ nbits (n div 2)" by linarith
    then show ?thesis using False by (subst nbits.simps) simp
  qed
qed

lemma nbits_ge: "0 < m \<Longrightarrow> 2 ^ (nbits m - 1) \<le> m"
proof (induction m rule: nbits.induct)
  case (1 n)
  show ?case
  proof (cases "n div 2 = 0")
    case True
    then have "n = 1" using 1(2) by linarith
    then show ?thesis by (simp add: nbits_Suc0)
  next
    case False
    then have "2 ^ (nbits (n div 2) - 1) \<le> n div 2" using 1 by simp
    moreover have "0 < nbits (n div 2)" using False by (subst nbits.simps) simp
    ultimately have "2 ^ nbits (n div 2) \<le> 2 * (n div 2)"
      by (cases "nbits (n div 2)") simp_all
    then have "2 ^ nbits (n div 2) \<le> n" by linarith
    then show ?thesis using 1(2) by (subst nbits.simps) simp
  qed
qed

lemma nbits_unique:
  assumes "2 ^ k \<le> m" "m < 2 ^ Suc k"
  shows "nbits m = Suc k"
proof -
  have pos: "0 < m" using assms(1) by (metis less_le_trans zero_less_numeral zero_less_power)
  have "2 ^ k < (2 :: nat) ^ nbits m" using assms(1) nbits_less [of m] by linarith
  then have a: "k < nbits m" by (simp add: power_strict_increasing_iff)
  have "2 ^ (nbits m - 1) < (2 :: nat) ^ Suc k" using assms(2) nbits_ge [OF pos] by linarith
  then have "nbits m - 1 < Suc k" by (simp only: power_strict_increasing_iff rel_simps)
  then show ?thesis using a by linarith
qed

lemma nbits_shift: "0 < m \<Longrightarrow> nbits (m * 2 ^ k) = nbits m + k"
proof -
  assume pos: "0 < m"
  then have n: "0 < nbits m" by (subst nbits.simps) simp
  have "2 ^ (nbits m - 1) * 2 ^ k \<le> m * 2 ^ k" using nbits_ge [OF pos] by simp
  then have a: "2 ^ (nbits m - 1 + k) \<le> m * 2 ^ k" by (simp add: power_add)
  have "m * 2 ^ k < 2 ^ nbits m * 2 ^ k" using nbits_less [of m] by simp
  then have b: "m * 2 ^ k < 2 ^ Suc (nbits m - 1 + k)" using n by (simp add: power_add [symmetric])
  show ?thesis using nbits_unique [OF a b] n by simp
qed

lemma rne_shift_exact: "rne_shift (m * 2 ^ k) k = m"
  by (simp add: rne_shift_def)

lemma f_frac_less: "f_frac x < 2 ^ 23"
  by (simp add: f_frac_def)

lemma f_expo_less: "f_expo x < 256"
  by (simp add: f_expo_def)

lemma f_unpack_FFin:
  assumes "f_unpack x = FFin t n d"
  shows "t = f_sign x"
    and "(f_expo x = 0 \<and> n = f_frac x \<and> d = - 149)
         \<or> (0 < f_expo x \<and> f_expo x < 255 \<and> n = 2 ^ 23 + f_frac x \<and> d = int (f_expo x) - 150)"
  using assms f_expo_less [of x] by (auto simp add: f_unpack_def split: if_splits)

lemma f_unpack_FInf: "f_unpack x = FInf t \<Longrightarrow> x = f_inf t"
  using f_pack_fields [of x] by (auto simp add: f_unpack_def f_inf_def split: if_splits)

lemma nbits_normal: "2 ^ 23 \<le> n \<Longrightarrow> n < 2 ^ 24 \<Longrightarrow> nbits n = 24"
  using nbits_unique [of 23 n] by simp

lemma nbits_subnormal: "n < 2 ^ 23 \<Longrightarrow> nbits n \<le> 23"
proof (cases "n = 0")
  case True
  then show ?thesis by (simp add: nbits_0)
next
  case False
  assume "n < 2 ^ 23"
  then have "2 ^ (nbits n - 1) < (2 :: nat) ^ 23" using nbits_ge [of n] False by simp
  then have "nbits n - 1 < 23" by (simp only: power_strict_increasing_iff rel_simps)
  then show ?thesis by simp
qed

lemma f_round_unpacked:
  assumes "f_unpack x = FFin t n d" "0 < n"
  shows "f_round t (n * 2 ^ nat (d + 149)) (- 149) = x"
proof -
  note u = f_unpack_FFin [OF assms(1)]
  from u(2) show ?thesis
  proof
    assume s: "f_expo x = 0 \<and> n = f_frac x \<and> d = - 149"
    then have n: "n < 2 ^ 23" using f_frac_less [of x] by simp
    have "int (nbits n) \<le> 23" using nbits_subnormal [OF n] by simp
    then have "f_round t n (- 149) = f_pack t 0 n"
      using n by (simp add: f_round_def Let_def max_def)
    then show ?thesis using s u(1) f_pack_fields [of x] by simp
  next
    assume s: "0 < f_expo x \<and> f_expo x < 255 \<and> n = 2 ^ 23 + f_frac x \<and> d = int (f_expo x) - 150"
    then obtain k where ek: "f_expo x = Suc k" by (cases "f_expo x") auto
    have dk: "d = int k - 149" using s ek by simp
    have n: "2 ^ 23 \<le> n" "n < 2 ^ 24" using s f_frac_less [of x] by simp_all
    have nb: "nbits (n * 2 ^ k) = 24 + k" using nbits_shift [of n k] nbits_normal [OF n] assms(2) by simp
    have "f_round t (n * 2 ^ k) (- 149) = f_pack t (nat (int k - 149 + 150)) (n - 2 ^ 23)"
      unfolding f_round_def Let_def nb using n s ek
      by (simp add: max_def rne_shift_exact)
    also have "\<dots> = f_pack t (f_expo x) (f_frac x)" using s ek by (simp add: nat_add_distrib)
    finally show ?thesis using u(1) f_pack_fields [of x] dk by simp
  qed
qed

lemma with_sign_0: "with_sign s 0 = 0"
  by (simp add: with_sign_def)

lemma with_sign_abs: "nat \<bar>with_sign t m\<bar> = m"
  by (simp add: with_sign_def)

lemma with_sign_neg: "(with_sign t m < 0) = (t \<and> 0 < m)"
  by (simp add: with_sign_def)

lemma with_sign_eq_0: "(with_sign t m = 0) = (m = 0)"
  by (simp add: with_sign_def)

lemma f_unpack_zero: "f_unpack f_zero = FFin False 0 (- 149)"
  by (simp add: float_eval)

lemma fadd_zero_left:
  assumes "f_unpack x \<noteq> FNaN" "x \<noteq> f_neg_zero"
  shows "fadd f_zero x = x"
proof (cases "f_unpack x")
  case FNaN
  then show ?thesis using assms(1) by simp
next
  case (FInf t)
  then show ?thesis using f_unpack_FInf [OF FInf] by (simp add: fadd_def f_unpack_zero)
next
  case (FFin t n d)
  note u = f_unpack_FFin [OF FFin]
  have d: "- 149 \<le> d" using u(2) by auto
  show ?thesis
  proof (cases "n = 0")
    case True
    then have e: "f_expo x = 0" "f_frac x = 0" using u(2) by auto
    have "x = f_pack t 0 0" using f_pack_fields [of x] e u(1) by simp
    then have "\<not> t" using assms(2) by (auto simp add: f_pack_def f_neg_zero_def)
    then show ?thesis
      using True FFin \<open>x = f_pack t 0 0\<close>
      by (simp add: fadd_def f_unpack_zero f_sum_def with_sign_def Let_def)
  next
    case False
    then have "f_sum False 0 (- 149) t n d = f_round t (n * 2 ^ nat (d + 149)) (- 149)"
      using d by (simp add: f_sum_def Let_def min_def with_sign_0 with_sign_abs with_sign_neg with_sign_eq_0)
    then show ?thesis
      using FFin False f_round_unpacked [OF FFin] by (simp add: fadd_def f_unpack_zero)
  qed
qed

lemma rne_shift_le: "rne_shift m k \<le> m div 2 ^ k + 1"
  by (simp add: rne_shift_def Let_def)

lemma rne_shift_ge: "m div 2 ^ k \<le> rne_shift m k"
  by (simp add: rne_shift_def Let_def)

lemma f_round_q_bound:
  fixes m :: nat and e :: int
  defines "t \<equiv> max (e + int (nbits m) - 24) (- 149)"
  defines "q \<equiv> (if t \<le> e then m * 2 ^ nat (e - t) else rne_shift m (nat (t - e)))"
  shows "q \<le> 2 ^ 24" and "0 < m \<Longrightarrow> - 149 \<le> e \<Longrightarrow> 0 < q"
proof -
  show "q \<le> 2 ^ 24"
  proof (cases "t \<le> e")
    case True
    then have "nbits m + nat (e - t) \<le> 24" unfolding t_def max_def by (simp split: if_splits)
    then have "(2 :: nat) ^ (nbits m + nat (e - t)) \<le> 2 ^ 24"
      by (simp only: power_increasing_iff rel_simps)
    moreover have "m * 2 ^ nat (e - t) \<le> 2 ^ nbits m * 2 ^ nat (e - t)"
      by (rule mult_le_mono1) (simp add: nbits_less less_imp_le)
    ultimately have "m * 2 ^ nat (e - t) \<le> 2 ^ 24"
      unfolding power_add by (rule le_trans [rotated])
    then show ?thesis using True by (simp add: q_def)
  next
    case False
    let ?k = "nat (t - e)"
    have "nbits m \<le> 24 + ?k" using False unfolding t_def by simp
    then have "(2 :: nat) ^ nbits m \<le> 2 ^ (24 + ?k)"
      by (simp only: power_increasing_iff rel_simps)
    then have "m < 2 ^ 24 * 2 ^ ?k" using nbits_less [of m] by (simp add: power_add)
    then have "m div 2 ^ ?k < 2 ^ 24" by (simp add: less_mult_imp_div_less)
    then show ?thesis using False rne_shift_le [of m ?k] by (simp add: q_def)
  qed
  show "0 < q" if "0 < m" "- 149 \<le> e"
  proof (cases "t \<le> e")
    case True
    then show ?thesis using that by (simp add: q_def)
  next
    case False
    let ?k = "nat (t - e)"
    have te: "t = e + int (nbits m) - 24" using False that(2) unfolding t_def by simp
    then have k: "nbits m = 24 + ?k" using False by simp
    have "2 ^ (nbits m - 1) \<le> m" using nbits_ge [OF that(1)] .
    then have "2 ^ 23 * 2 ^ ?k \<le> m" using k by (simp add: power_add)
    then have "2 ^ 23 \<le> m div 2 ^ ?k" by (simp add: less_eq_div_iff_mult_less_eq)
    then show ?thesis using False rne_shift_ge [of m ?k] by (simp add: q_def)
  qed
qed

lemma f_round_cases:
  "(\<exists>q. q < 2 ^ 23 \<and> f_round s m e = f_pack s 0 q \<and> (0 < m \<and> - 149 \<le> e \<longrightarrow> 0 < q))
   \<or> f_round s m e = f_inf s
   \<or> (\<exists>E f. 0 < E \<and> E < 255 \<and> f < 2 ^ 23 \<and> f_round s m e = f_pack s E f)"
proof -
  define t where "t = max (e + int (nbits m) - 24) (- 149)"
  define q where "q = (if t \<le> e then m * 2 ^ nat (e - t) else rne_shift m (nat (t - e)))"
  define q' where "q' = (if q = 2 ^ 24 then 2 ^ 23 else q)"
  define t' where "t' = (if q = 2 ^ 24 then t + 1 else t)"
  have r: "f_round s m e =
      (if q' < 2 ^ 23 then f_pack s 0 q'
       else if 104 < t' then f_inf s else f_pack s (nat (t' + 150)) (q' - 2 ^ 23))"
    unfolding f_round_def Let_def t_def q_def q'_def t'_def by (rule refl)
  have qb: "q \<le> 2 ^ 24" unfolding q_def t_def by (rule f_round_q_bound(1))
  have qp: "0 < q" if "0 < m" "- 149 \<le> e"
    unfolding q_def t_def using that by (rule f_round_q_bound(2))
  have "- 149 \<le> t" unfolding t_def by (rule max.cobounded2)
  then have tb: "- 149 \<le> t'" by (simp add: t'_def)
  have q'b: "q' < 2 ^ 24" using qb by (simp add: q'_def)
  show ?thesis
  proof (cases "q' < 2 ^ 23")
    case True
    then have "q' = q" by (auto simp add: q'_def split: if_splits)
    then show ?thesis using True r qp by auto
  next
    case False
    show ?thesis
    proof (cases "104 < t'")
      case True
      then show ?thesis using False r by simp
    next
      case b: False
      have "0 < nat (t' + 150)" "nat (t' + 150) < 255"
        using tb b by linarith+
      moreover have "q' - 2 ^ 23 < 2 ^ 23"
        using q'b by simp
      moreover have "f_round s m e = f_pack s (nat (t' + 150)) (q' - 2 ^ 23)"
        using False b r by simp
      ultimately have "0 < nat (t' + 150) \<and> nat (t' + 150) < 255 \<and> q' - 2 ^ 23 < 2 ^ 23
            \<and> f_round s m e = f_pack s (nat (t' + 150)) (q' - 2 ^ 23)"
        by (intro conjI)
      then have "\<exists>E f. 0 < E \<and> E < 255 \<and> f < 2 ^ 23 \<and> f_round s m e = f_pack s E f"
        by blast
      then show ?thesis by blast
    qed
  qed
qed

lemma f_unpack_f_pack_sub: "q < 2 ^ 23 \<Longrightarrow> f_unpack (f_pack s 0 q) = FFin s q (- 149)"
  by (simp add: f_unpack_def fields_f_pack)

lemma f_unpack_f_pack_norm:
  "0 < E \<Longrightarrow> E < 255 \<Longrightarrow> f < 2 ^ 23 \<Longrightarrow> f_unpack (f_pack s E f) = FFin s (2 ^ 23 + f) (int E - 150)"
  by (simp add: f_unpack_def fields_f_pack)

lemma f_unpack_f_inf: "f_unpack (f_inf s) = FInf s"
  by (simp add: f_unpack_def f_inf_def fields_f_pack)

lemma f_unpack_f_qnan: "f_unpack f_qnan = FNaN"
  by (simp add: float_eval)

lemma f_unpack_f_neg_zero: "f_unpack f_neg_zero = FFin True 0 (- 149)"
  by (simp add: f_neg_zero_def float_eval)

lemma f_unpack_f_round:
  "(\<exists>q. f_unpack (f_round s m e) = FFin s q (- 149) \<and> (0 < m \<and> - 149 \<le> e \<longrightarrow> 0 < q))
   \<or> f_unpack (f_round s m e) = FInf s
   \<or> (\<exists>n d. 0 < n \<and> f_unpack (f_round s m e) = FFin s n d)"
  using f_round_cases [of s m e]
  by (auto simp add: f_unpack_f_pack_sub f_unpack_f_pack_norm f_unpack_f_inf)

lemma f_neg_zero_iff: "(x = f_neg_zero) = (f_unpack x = FFin True 0 (- 149))"
proof
  assume "x = f_neg_zero"
  then show "f_unpack x = FFin True 0 (- 149)" by (simp add: f_unpack_f_neg_zero)
next
  assume u: "f_unpack x = FFin True 0 (- 149)"
  note f = f_unpack_FFin [OF u]
  from f(2) have "f_expo x = 0 \<and> f_frac x = 0" by auto
  then have "x = f_pack True 0 0" using f(1) f_pack_fields [of x] by simp
  then show "x = f_neg_zero" by (simp add: f_pack_def f_neg_zero_def)
qed

lemma f_unpack_exp_ge: "f_unpack x = FFin t n d \<Longrightarrow> - 149 \<le> d"
  using f_unpack_FFin(2) [of x t n d] by auto

lemma f_unpack_zero_mantissa: "f_unpack x = FFin t 0 d \<Longrightarrow> d = - 149"
  using f_unpack_FFin(2) [of x t 0 d] by auto

lemma f_sum_result:
  assumes "- 149 \<le> e" "- 149 \<le> d"
  shows "(\<exists>q. f_unpack (f_sum s m e t n d) = FFin (s \<and> t) 0 (- 149) \<and> m = 0 \<and> n = 0)
       \<or> (\<exists>u. f_unpack (f_sum s m e t n d) = FFin u 0 (- 149) \<and> \<not> u)
       \<or> (\<exists>u. f_unpack (f_sum s m e t n d) = FInf u)
       \<or> (\<exists>u k c. 0 < k \<and> f_unpack (f_sum s m e t n d) = FFin u k c)"
proof -
  define c where "c = min e d"
  define v where "v = with_sign s (m * 2 ^ nat (e - c)) + with_sign t (n * 2 ^ nat (d - c))"
  have r: "f_sum s m e t n d = (if v = 0 then f_pack (s \<and> t) 0 0 else f_round (v < 0) (nat \<bar>v\<bar>) c)"
    unfolding f_sum_def Let_def c_def v_def by (rule refl)
  have cb: "- 149 \<le> c" using assms by (simp add: c_def)
  show ?thesis
  proof (cases "v = 0")
    case True
    show ?thesis
    proof (cases "s \<and> t")
      case st: True
      have h: "a = 0 \<and> b = 0" if "with_sign True a + with_sign True b = 0" for a b
        using that by (simp add: with_sign_def)
      have "m * 2 ^ nat (e - c) = 0 \<and> n * 2 ^ nat (d - c) = 0"
        using True st unfolding v_def by (intro h) simp
      then have "m = 0 \<and> n = 0" by simp
      then show ?thesis using True r st by (simp add: f_unpack_f_pack_sub)
    next
      case False
      then show ?thesis using True r by (simp add: f_unpack_f_pack_sub)
    qed
  next
    case False
    then have "0 < nat \<bar>v\<bar>" by simp
    then show ?thesis
      using f_unpack_f_round [of "v < 0" "nat \<bar>v\<bar>" c] False r cb by auto
  qed
qed

lemma fadd_not_neg_zero:
  assumes "a \<noteq> f_neg_zero"
  shows "fadd a b \<noteq> f_neg_zero"
proof
  assume z: "fadd a b = f_neg_zero"
  then have u: "f_unpack (fadd a b) = FFin True 0 (- 149)" by (simp add: f_unpack_f_neg_zero)
  show False
  proof (cases "f_unpack a")
    case FNaN
    then show ?thesis using u by (simp add: fadd_def f_unpack_f_qnan)
  next
    case (FInf s)
    then show ?thesis
      using u by (cases "f_unpack b") (simp_all add: fadd_def f_unpack_f_qnan f_unpack_f_inf split: if_splits)
  next
    case (FFin s m e)
    show ?thesis
    proof (cases "f_unpack b")
      case FNaN
      then show ?thesis using u FFin by (simp add: fadd_def f_unpack_f_qnan)
    next
      case (FInf t)
      then show ?thesis using u FFin by (simp add: fadd_def f_unpack_f_inf)
    next
      case b: (FFin t n d)
      have "fadd a b = f_sum s m e t n d" using FFin b by (simp add: fadd_def)
      then have "s \<and> t \<and> m = 0"
        using f_sum_result [OF f_unpack_exp_ge [OF FFin] f_unpack_exp_ge [OF b], of s m t n] u
        by auto
      then have "f_unpack a = FFin True 0 (- 149)"
        using FFin f_unpack_zero_mantissa [of a s e] by simp
      then show ?thesis using assms by (simp add: f_neg_zero_iff)
    qed
  qed
qed




lemma f_zero_not_neg_zero: "f_zero \<noteq> f_neg_zero"
  by (simp add: f_zero_def f_neg_zero_def)

lemma fadd_zero_neg_zero: "fadd f_zero f_neg_zero = f_zero"
  by (simp add: f_neg_zero_def float_eval)

lemma fadd_either_zero:
  assumes "x \<noteq> f_neg_zero"
  shows "fadd x f_neg_zero = fadd x f_zero"
proof (cases "f_unpack x")
  case FNaN
  then show ?thesis by (simp add: fadd_def)
next
  case (FInf s)
  then show ?thesis by (simp add: fadd_def f_unpack_zero f_unpack_f_neg_zero)
next
  case (FFin s m e)
  have "\<not> (s \<and> m = 0)"
    using assms FFin f_unpack_zero_mantissa [of x s e] by (auto simp add: f_neg_zero_iff)
  then have "f_sum s m e True 0 (- 149) = f_sum s m e False 0 (- 149)"
    by (auto simp add: f_sum_def Let_def with_sign_0 with_sign_eq_0)
  then show ?thesis using FFin by (simp add: fadd_def f_unpack_zero f_unpack_f_neg_zero)
qed

lemma fadd_absorb_zero:
  "fadd (fadd f_zero a) (fadd f_zero b) = fadd (fadd f_zero a) b"
proof -
  let ?x = "fadd f_zero a"
  have x: "?x \<noteq> f_neg_zero" using f_zero_not_neg_zero by (rule fadd_not_neg_zero)
  show ?thesis
  proof (cases "f_unpack b = FNaN")
    case True
    then have "fadd f_zero b = f_qnan" by (simp add: fadd_def f_unpack_zero)
    then show ?thesis using True
      by (cases "f_unpack ?x") (simp_all add: fadd_def f_unpack_f_qnan)
  next
    case False
    show ?thesis
    proof (cases "b = f_neg_zero")
      case True
      then show ?thesis using fadd_either_zero [OF x] by (simp add: fadd_zero_neg_zero)
    next
      case nz: False
      then show ?thesis using fadd_zero_left [OF False nz] by simp
    qed
  qed
qed

subsection \<open>Rounding to nearest, ties to even\<close>

lemma round_half_even_of_int: "round_half_even (of_int z) = z"
  by (simp add: round_half_even_def)

lemma round_half_even_nearest:
  "\<bar>v - of_int (round_half_even v)\<bar> \<le> 1 / 2"
  "\<bar>v - of_int (round_half_even v)\<bar> = 1 / 2 \<Longrightarrow> even (round_half_even v)"
proof -
  have a: "of_int \<lfloor>v\<rfloor> \<le> v" "v < of_int \<lfloor>v\<rfloor> + 1" by linarith+
  show "\<bar>v - of_int (round_half_even v)\<bar> \<le> 1 / 2"
    using a by (auto simp add: round_half_even_def Let_def)
  show "even (round_half_even v)" if "\<bar>v - of_int (round_half_even v)\<bar> = 1 / 2"
    using a that by (auto simp add: round_half_even_def Let_def split: if_splits)
qed

lemma round_half_even_unique:
  assumes "\<bar>v - of_int r\<bar> \<le> 1 / 2" "\<bar>v - of_int r\<bar> = 1 / 2 \<longrightarrow> even r"
  shows "round_half_even v = r"
proof -
  let ?q = "round_half_even v"
  note n = round_half_even_nearest [of v]
  have "\<bar>(of_int r :: real) - of_int ?q\<bar> \<le> 1" using assms(1) n(1) by linarith
  then have "\<bar>(of_int (r - ?q) :: real)\<bar> \<le> of_int 1" by simp
  then have d: "\<bar>r - ?q\<bar> \<le> 1" unfolding of_int_abs [symmetric] of_int_le_iff .
  show ?thesis
  proof (rule ccontr)
    assume ne: "?q \<noteq> r"
    then have c: "r = ?q + 1 \<or> r = ?q - 1" using d by linarith
    have "(of_int r :: real) = of_int ?q + 1 \<or> (of_int r :: real) = of_int ?q - 1"
      using c by auto
    then have h: "\<bar>v - of_int r\<bar> = 1 / 2 \<and> \<bar>v - of_int ?q\<bar> = 1 / 2"
      using assms(1) n(1) by linarith
    then have "even r \<and> even ?q" using assms(2) n(2) by simp
    then show False using c by auto
  qed
qed

lemma round_half_even_minus: "round_half_even (- v) = - round_half_even v"
proof (rule round_half_even_unique)
  note n = round_half_even_nearest [of v]
  have e: "\<bar>- v - of_int (- round_half_even v)\<bar> = \<bar>v - of_int (round_half_even v)\<bar>"
    by simp
  show "\<bar>- v - of_int (- round_half_even v)\<bar> \<le> 1 / 2" unfolding e by (rule n(1))
  show "\<bar>- v - of_int (- round_half_even v)\<bar> = 1 / 2 \<longrightarrow> even (- round_half_even v)"
    unfolding e using n(2) by simp
qed

lemma round_half_even_rne_shift:
  "round_half_even (of_nat m / 2 ^ k) = int (rne_shift m k)"
proof (rule round_half_even_unique)
  define q where "q = m div 2 ^ k"
  define r where "r = m mod 2 ^ k"
  have m: "m = q * 2 ^ k + r" unfolding q_def r_def by (rule div_mult_mod_eq [symmetric])
  have r: "r < 2 ^ k" by (simp add: r_def)
  have v: "(of_nat m :: real) / 2 ^ k = of_nat q + of_nat r / 2 ^ k"
    unfolding m by (simp add: field_simps)
  have s: "rne_shift m k = (if 2 ^ k < 2 * r \<or> (2 * r = 2 ^ k \<and> odd q) then q + 1 else q)"
    by (simp add: rne_shift_def q_def r_def Let_def)
  have lt: "((of_nat r :: real) / 2 ^ k < 1 / 2) = (2 * r < 2 ^ k)"
  proof -
    have "((of_nat r :: real) / 2 ^ k < 1 / 2) = ((of_nat (2 * r) :: real) < of_nat (2 ^ k))"
      by (simp add: field_simps)
    then show ?thesis unfolding of_nat_less_iff .
  qed
  have gt: "(1 / 2 < (of_nat r :: real) / 2 ^ k) = (2 ^ k < 2 * r)"
  proof -
    have "(1 / 2 < (of_nat r :: real) / 2 ^ k) = ((of_nat (2 ^ k) :: real) < of_nat (2 * r))"
      by (simp add: field_simps)
    then show ?thesis unfolding of_nat_less_iff .
  qed
  have r0: "0 \<le> (of_nat r :: real) / 2 ^ k" by simp
  have "real r < real (2 ^ k)" using r unfolding of_nat_less_iff .
  then have r1: "real r / 2 ^ k < 1" by simp
  define d where "d = real r / 2 ^ k"
  have v': "real m / 2 ^ k = real q + d" unfolding v d_def ..
  have d: "0 \<le> d" "d < 1" "(d < 1 / 2) = (2 * r < 2 ^ k)" "(1 / 2 < d) = (2 ^ k < 2 * r)"
    unfolding d_def using r0 r1 lt gt by simp_all
  consider (lo) "2 * r < 2 ^ k" | (tie) "2 * r = 2 ^ k" | (hi) "2 ^ k < 2 * r" by linarith
  then have "\<bar>real m / 2 ^ k - real_of_int (int (rne_shift m k))\<bar> \<le> 1 / 2
      \<and> (\<bar>real m / 2 ^ k - real_of_int (int (rne_shift m k))\<bar> = 1 / 2 \<longrightarrow> even (int (rne_shift m k)))"
  proof cases
    case lo
    then have "rne_shift m k = q" by (simp add: s)
    moreover have "d < 1 / 2" using lo d(3) by simp
    ultimately show ?thesis unfolding v' using d(1) by simp
  next
    case tie
    then have e: "rne_shift m k = (if odd q then q + 1 else q)" by (simp add: s)
    have "\<not> d < 1 / 2" "\<not> 1 / 2 < d" using tie d(3,4) by simp_all
    then have "d = 1 / 2" by linarith
    then show ?thesis unfolding v' e by simp
  next
    case hi
    then have "rne_shift m k = q + 1" by (simp add: s)
    moreover have "1 / 2 < d" using hi d(4) by simp
    ultimately show ?thesis unfolding v' using d(2) by simp
  qed
  then show "\<bar>real m / 2 ^ k - real_of_int (int (rne_shift m k))\<bar> \<le> 1 / 2"
    and "\<bar>real m / 2 ^ k - real_of_int (int (rne_shift m k))\<bar> = 1 / 2 \<longrightarrow> even (int (rne_shift m k))"
    by simp_all
qed

lemma nbits_le: "m < 2 ^ k \<Longrightarrow> nbits m \<le> k"
proof (cases "m = 0")
  case True
  then show ?thesis by (simp add: nbits_0)
next
  case False
  assume b: "m < 2 ^ k"
  have a: "2 ^ (nbits m - 1) \<le> m" using nbits_ge [of m] False by simp
  have "2 ^ (nbits m - 1) < (2 :: nat) ^ k" using a b by (rule le_less_trans)
  then have "nbits m - 1 < k" by (simp only: power_strict_increasing_iff rel_simps)
  then show ?thesis by simp
qed

lemma nbits_pos: "0 < m \<Longrightarrow> 0 < nbits m"
  by (subst nbits.simps) simp

lemma f_round_zero: "f_unpack (f_round s 0 0) = FFin s 0 (- 149)"
  by (simp add: f_round_def nbits_0 Let_def f_unpack_f_pack_sub)

lemma f_round_small:
  assumes "0 < r" "r < 2 ^ 24"
  shows "f_unpack (f_round s r 0) = FFin s (r * 2 ^ (24 - nbits r)) (int (nbits r) - 24)"
proof -
  define t where "t = int (nbits r) - 24"
  define q where "q = r * 2 ^ (24 - nbits r)"
  have n: "0 < nbits r" "nbits r \<le> 24" using assms nbits_pos nbits_le by simp_all
  have nq: "nbits q = 24" unfolding q_def using nbits_shift [OF assms(1), of "24 - nbits r"] n by simp
  have q: "2 ^ 23 \<le> q" "q < 2 ^ 24"
    using nbits_ge [of q] nbits_less [of q] nq assms(1) by (simp_all add: q_def)
  have k: "nat (- t) = 24 - nbits r" using n by (simp add: t_def)
  have "f_round s r 0 = f_pack s (nat (t + 150)) (q - 2 ^ 23)"
    using q n unfolding f_round_def Let_def
    by (simp add: max_def t_def [symmetric] k q_def [symmetric]) (simp add: t_def)
  moreover have "0 < nat (t + 150)" "nat (t + 150) < 255" "q - 2 ^ 23 < 2 ^ 23"
    using n q by (simp_all add: t_def)
  ultimately have "f_unpack (f_round s r 0) = FFin s (2 ^ 23 + (q - 2 ^ 23)) (int (nat (t + 150)) - 150)"
    by (simp add: f_unpack_f_pack_norm)
  also have "\<dots> = FFin s q t" using q n by (simp add: t_def)
  finally show ?thesis unfolding q_def t_def .
qed

lemma cvttss2si_f_round_small:
  assumes "r < 2 ^ 24"
  shows "cvttss2si (f_round s r 0) = int32_or_indefinite (with_sign s r)"
proof (cases "r = 0")
  case True
  then show ?thesis by (simp add: cvttss2si_def f_round_zero)
next
  case False
  then have pos: "0 < r" by simp
  have n: "nbits r \<le> 24" using assms nbits_le by simp
  show ?thesis
  proof (cases "nbits r = 24")
    case True
    then show ?thesis by (simp add: cvttss2si_def f_round_small [OF pos assms])
  next
    case False
    then have "int (nbits r) - 24 < 0" "nat (24 - int (nbits r)) = 24 - nbits r" using n by simp_all
    then show ?thesis by (simp add: cvttss2si_def f_round_small [OF pos assms])
  qed
qed

lemma sint_int16_of_int32:
  assumes "- 32768 \<le> z" "z \<le> 32767"
  shows "sint (ucast (int32_or_indefinite z) :: int16_t) = z"
proof -
  have "int32_or_indefinite z = word_of_int z" using assms by (simp add: int32_or_indefinite_def)
  moreover have "(ucast (word_of_int z :: 32 word) :: 16 word) = word_of_int z"
    by (rule ucast_down_wi) (simp add: is_down)
  moreover have "sint (word_of_int z :: 16 word) = z"
    using assms by (simp add: sint_sbintrunc' signed_take_bit_int_eq_self)
  ultimately show ?thesis by simp
qed

lemma f_val_FFin: "f_unpack p = FFin s m e \<Longrightarrow> f_val p = of_int (with_sign s m) * 2 powi e"
  by (simp add: f_val_def)

lemma round_half_even_with_sign:
  "round_half_even (of_int (with_sign s m) / 2 ^ k) = with_sign s (rne_shift m k)"
proof (cases s)
  case True
  have "round_half_even (- (real m / 2 ^ k)) = - int (rne_shift m k)"
    unfolding round_half_even_minus round_half_even_rne_shift ..
  then show ?thesis using True by (simp add: with_sign_def)
next
  case False
  then show ?thesis using round_half_even_rne_shift [of m k] by (simp add: with_sign_def)
qed

lemma round_half_even_f_val:
  assumes "f_unpack p = FFin s m e"
  shows "round_half_even (f_val p)
         = with_sign s (if 0 \<le> e then m * 2 ^ nat e else rne_shift m (nat (- e)))"
proof (cases "0 \<le> e")
  case True
  have "f_val p = of_int (with_sign s (m * 2 ^ nat e))"
    using True by (simp add: f_val_FFin [OF assms] power_int_def with_sign_def)
  then show ?thesis using True by (simp only: round_half_even_of_int if_True)
next
  case False
  have "f_val p = of_int (with_sign s m) / 2 ^ nat (- e)"
    using False by (simp add: f_val_FFin [OF assms] power_int_def field_simps)
  then show ?thesis using False by (simp only: round_half_even_with_sign if_False)
qed

lemma scalar_cast_rintf:
  assumes "f_finite p" "- 32768 \<le> round_half_even (f_val p)" "round_half_even (f_val p) \<le> 32767"
  shows "sint (int16_of_float (rintf p)) = round_half_even (f_val p)"
proof -
  obtain s m e where u: "f_unpack p = FFin s m e"
    using assms(1) by (auto simp add: f_finite_def split: fval.splits)
  note v = round_half_even_f_val [OF u]
  show ?thesis
  proof (cases "0 \<le> e")
    case True
    then have "int16_of_float (rintf p) = ucast (int32_or_indefinite (with_sign s (m * 2 ^ nat e)))"
      by (simp add: int16_of_float_def rintf_def cvttss2si_def u)
    then show ?thesis using assms(2,3) True unfolding v by (simp add: sint_int16_of_int32)
  next
    case False
    define r where "r = rne_shift m (nat (- e))"
    have z: "round_half_even (f_val p) = with_sign s r" using False by (simp add: v r_def)
    have "r \<le> 32768" using assms(2,3) unfolding z by (simp add: with_sign_def split: if_splits)
    then have r: "r < 2 ^ 24" by simp
    have "int16_of_float (rintf p) = ucast (int32_or_indefinite (with_sign s r))"
      using False by (simp add: int16_of_float_def rintf_def u r_def [symmetric] cvttss2si_f_round_small [OF r])
    then show ?thesis using assms(2,3) unfolding z by (simp add: sint_int16_of_int32)
  qed
qed

lemma rne_shift_half: "\<bar>real (rne_shift m k) - real m / 2 ^ k\<bar> \<le> 1 / 2"
  using round_half_even_nearest(1) [of "real m / 2 ^ k"]
  unfolding round_half_even_rne_shift by (simp add: abs_minus_commute)

lemma rne_shift_nearest:
  "\<bar>real (rne_shift m k) - real m / 2 ^ k\<bar> \<le> \<bar>of_int j - real m / 2 ^ k\<bar>"
proof (cases "j = int (rne_shift m k)")
  case True
  then show ?thesis by simp
next
  case False
  then have "1 \<le> \<bar>j - int (rne_shift m k)\<bar>" by linarith
  then have "(1 :: real) \<le> of_int \<bar>j - int (rne_shift m k)\<bar>" by linarith
  then have "1 \<le> \<bar>real_of_int j - real (rne_shift m k)\<bar>" by simp
  then show ?thesis using rne_shift_half [of m k] by linarith
qed

lemma rne_shift_0: "rne_shift 0 k = 0"
  by (simp add: rne_shift_def)

text \<open>The first stage of \<open>f_round\<close>: the exponent of the last place and the rounded mantissa.\<close>

lemma f_round_stage:
  fixes m :: nat and e :: int
  defines "t \<equiv> max (e + int (nbits m) - 24) (- 149)"
  defines "q \<equiv> (if t \<le> e then m * 2 ^ nat (e - t) else rne_shift m (nat (t - e)))"
  assumes "q < 2 ^ 23"
  shows "t = - 149 \<or> q = 0"
proof (rule ccontr)
  assume c: "\<not> (t = - 149 \<or> q = 0)"
  then have te: "t = e + int (nbits m) - 24" unfolding t_def by (simp add: max_def split: if_splits)
  have "q = 0" if "m = 0" unfolding q_def that by (simp add: rne_shift_0)
  then have pos: "0 < m" using c by (cases "m = 0") simp_all
  show False
  proof (cases "t \<le> e")
    case True
    then have "nbits q = nbits m + nat (e - t)" using nbits_shift [OF pos] by (simp add: q_def)
    then have "nbits q = 24" using te True by simp
    moreover have "0 < q" using c by simp
    ultimately have "2 ^ 23 \<le> q" using nbits_ge [of q] by simp
    then show False using assms(3) by simp
  next
    case False
    let ?k = "nat (t - e)"
    have k: "nbits m = 24 + ?k" using False te by simp
    have "2 ^ (nbits m - 1) \<le> m" using nbits_ge [OF pos] .
    then have "2 ^ 23 * 2 ^ ?k \<le> m" using k by (simp add: power_add)
    then have "2 ^ 23 \<le> m div 2 ^ ?k" by (simp add: less_eq_div_iff_mult_less_eq)
    then have "2 ^ 23 \<le> q" using False rne_shift_ge [of m ?k] by (simp add: q_def)
    then show False using assms(3) by simp
  qed
qed

lemma f_finite_f_inf: "\<not> f_finite (f_inf s)"
  by (simp add: f_finite_def f_unpack_f_inf)

lemma f_round_value:
  fixes m :: nat and e :: int
  defines "t \<equiv> max (e + int (nbits m) - 24) (- 149)"
  defines "q \<equiv> (if t \<le> e then m * 2 ^ nat (e - t) else rne_shift m (nat (t - e)))"
  assumes "f_finite (f_round s m e)"
  shows "f_val (f_round s m e) = of_int (with_sign s q) * 2 powi t"
proof -
  define q' where "q' = (if q = 2 ^ 24 then 2 ^ 23 else q)"
  define t' where "t' = (if q = 2 ^ 24 then t + 1 else t)"
  have r: "f_round s m e =
      (if q' < 2 ^ 23 then f_pack s 0 q'
       else if 104 < t' then f_inf s else f_pack s (nat (t' + 150)) (q' - 2 ^ 23))"
    unfolding f_round_def Let_def t_def q_def q'_def t'_def by (rule refl)
  have qb: "q \<le> 2 ^ 24" unfolding q_def t_def by (rule f_round_q_bound(1))
  have "- 149 \<le> t" unfolding t_def by (rule max.cobounded2)
  then have tb: "- 149 \<le> t'" by (simp add: t'_def)
  have q'b: "q' < 2 ^ 24" using qb by (simp add: q'_def)
  have same: "real q' * 2 powi t' = real q * 2 powi t"
    by (simp add: q'_def t'_def power_int_add)
  show ?thesis
  proof (cases "q' < 2 ^ 23")
    case True
    then have qq: "q' = q" by (auto simp add: q'_def split: if_splits)
    then have "q < 2 ^ 23" using True by simp
    then have z: "t = - 149 \<or> q = 0" unfolding q_def t_def by (rule f_round_stage)
    have "f_val (f_round s m e) = of_int (with_sign s q) * 2 powi (- 149)"
      using True r qq by (simp add: f_val_def f_unpack_f_pack_sub)
    then show ?thesis using z by (auto simp add: with_sign_0)
  next
    case False
    then have b: "\<not> 104 < t'" using r assms(3) by (auto simp add: f_finite_f_inf)
    have "0 < nat (t' + 150)" "nat (t' + 150) < 255" using tb b by linarith+
    moreover have "q' - 2 ^ 23 < 2 ^ 23" using q'b by simp
    moreover have "f_round s m e = f_pack s (nat (t' + 150)) (q' - 2 ^ 23)"
      using False b r by simp
    ultimately have "f_unpack (f_round s m e) = FFin s (2 ^ 23 + (q' - 2 ^ 23)) (int (nat (t' + 150)) - 150)"
      by (simp add: f_unpack_f_pack_norm)
    also have "\<dots> = FFin s q' t'" using False tb by simp
    finally have "f_val (f_round s m e) = of_int (with_sign s q') * 2 powi t'"
      by (simp add: f_val_def)
    also have "\<dots> = of_int (with_sign s q) * 2 powi t"
      using same by (simp add: with_sign_def)
    finally show ?thesis .
  qed
qed

lemma f_round_even:
  fixes m :: nat and e :: int
  defines "t \<equiv> max (e + int (nbits m) - 24) (- 149)"
  defines "q \<equiv> (if t \<le> e then m * 2 ^ nat (e - t) else rne_shift m (nat (t - e)))"
  assumes "f_finite (f_round s m e)" "even q"
  shows "even (f_frac (f_round s m e))"
proof -
  define q' where "q' = (if q = 2 ^ 24 then 2 ^ 23 else q)"
  define t' where "t' = (if q = 2 ^ 24 then t + 1 else t)"
  have r: "f_round s m e =
      (if q' < 2 ^ 23 then f_pack s 0 q'
       else if 104 < t' then f_inf s else f_pack s (nat (t' + 150)) (q' - 2 ^ 23))"
    unfolding f_round_def Let_def t_def q_def q'_def t'_def by (rule refl)
  have qb: "q \<le> 2 ^ 24" unfolding q_def t_def by (rule f_round_q_bound(1))
  have "- 149 \<le> t" unfolding t_def by (rule max.cobounded2)
  then have tb: "- 149 \<le> t'" by (simp add: t'_def)
  have q'b: "q' < 2 ^ 24" using qb by (simp add: q'_def)
  have ev: "even q'" using assms(4) by (simp add: q'_def)
  show ?thesis
  proof (cases "q' < 2 ^ 23")
    case True
    then show ?thesis using r ev by (simp add: fields_f_pack)
  next
    case False
    then have b: "\<not> 104 < t'" using r assms(3) by (auto simp add: f_finite_f_inf)
    have "nat (t' + 150) < 256" using tb b by linarith
    moreover have "q' - 2 ^ 23 < 2 ^ 23" using q'b by simp
    moreover have "f_round s m e = f_pack s (nat (t' + 150)) (q' - 2 ^ 23)"
      using False b r by simp
    ultimately have "f_frac (f_round s m e) = q' - 2 ^ 23" by (simp add: fields_f_pack)
    then show ?thesis using ev False by simp
  qed
qed

lemma f_unpack_mantissa_less: "f_unpack x = FFin t n d \<Longrightarrow> n < 2 ^ 24"
  using f_unpack_FFin(2) [of x t n d] f_frac_less [of x] by auto

lemma with_sign_real: "real_of_int (with_sign s n) = (if s then - 1 else 1) * real n"
  by (simp add: with_sign_def)

lemma powi_split_le:
  fixes t e :: int
  assumes "e \<le> t"
  shows "(2 :: real) powi e = 2 powi t / 2 ^ nat (t - e)"
proof -
  have "(2 :: real) powi e = 2 powi (t - int (nat (t - e)))" using assms by simp
  also have "\<dots> = 2 powi t / 2 powi int (nat (t - e))" by (rule power_int_diff) simp
  finally show ?thesis by (simp only: power_int_of_nat)
qed

lemma powi_split_ge:
  fixes t d :: int
  assumes "t \<le> d"
  shows "(2 :: real) powi d = 2 powi t * 2 ^ nat (d - t)"
proof -
  have "(2 :: real) powi d = 2 powi (t + int (nat (d - t)))" using assms by simp
  also have "\<dots> = 2 powi t * 2 powi int (nat (d - t))" by (rule power_int_add) simp
  finally show ?thesis by (simp only: power_int_of_nat)
qed

lemma tie_half:
  fixes a b x :: real
  assumes "1 \<le> \<bar>b - a\<bar>" "\<bar>a - x\<bar> \<le> 1 / 2" "\<bar>a - x\<bar> = \<bar>b - x\<bar>"
  shows "\<bar>x - a\<bar> = 1 / 2"
  using assms by linarith

lemma rne_shift_tie:
  assumes "\<bar>real (rne_shift m k) - real m / 2 ^ k\<bar> = \<bar>of_int j - real m / 2 ^ k\<bar>"
    and "j \<noteq> int (rne_shift m k)"
  shows "even (rne_shift m k)"
proof -
  have "1 \<le> \<bar>j - int (rne_shift m k)\<bar>" using assms(2) by linarith
  then have "(1 :: real) \<le> of_int \<bar>j - int (rne_shift m k)\<bar>" by linarith
  then have "1 \<le> \<bar>real_of_int j - real (rne_shift m k)\<bar>" by simp
  then have "\<bar>real m / 2 ^ k - real (rne_shift m k)\<bar> = 1 / 2"
    using rne_shift_half [of m k] assms(1) by (rule tie_half)
  then have "\<bar>real m / 2 ^ k - real_of_int (int (rne_shift m k))\<bar> = 1 / 2" by simp
  then have "even (round_half_even (real m / 2 ^ k))"
    unfolding round_half_even_rne_shift [symmetric] by (rule round_half_even_nearest(2))
  then show ?thesis unfolding round_half_even_rne_shift by simp
qed

lemma f_round_nearest:
  assumes fin: "f_finite (f_round s m e)" and z: "f_finite z"
  shows "\<bar>f_val (f_round s m e) - of_int (with_sign s m) * 2 powi e\<bar>
         \<le> \<bar>f_val z - of_int (with_sign s m) * 2 powi e\<bar>"
    and "\<bar>f_val (f_round s m e) - of_int (with_sign s m) * 2 powi e\<bar>
         = \<bar>f_val z - of_int (with_sign s m) * 2 powi e\<bar>
         \<Longrightarrow> f_val z \<noteq> f_val (f_round s m e) \<Longrightarrow> even (f_frac (f_round s m e))"
proof -
  define t where "t = max (e + int (nbits m) - 24) (- 149)"
  define q where "q = (if t \<le> e then m * 2 ^ nat (e - t) else rne_shift m (nat (t - e)))"
  define P :: real where "P = 2 powi t"
  define \<sigma> :: real where "\<sigma> = (if s then - 1 else 1)"
  have P: "0 < P" by (simp add: P_def)
  have \<sigma>: "\<bar>\<sigma>\<bar> = 1" "\<sigma> * \<sigma> = 1" by (simp_all add: \<sigma>_def)
  have res: "f_val (f_round s m e) = \<sigma> * real q * P"
    using f_round_value [OF fin] unfolding t_def [symmetric] q_def [symmetric] P_def \<sigma>_def with_sign_real
    by simp
  have ev: "even (f_frac (f_round s m e))" if "even q"
    using f_round_even [OF fin] that unfolding t_def [symmetric] q_def [symmetric] .
  let ?L = "\<bar>f_val (f_round s m e) - of_int (with_sign s m) * 2 powi e\<bar>"
  let ?R = "\<bar>f_val z - of_int (with_sign s m) * 2 powi e\<bar>"
  have "?L \<le> ?R \<and> (?L = ?R \<longrightarrow> f_val z \<noteq> f_val (f_round s m e) \<longrightarrow> even (f_frac (f_round s m e)))"
  proof (cases "t \<le> e")
    case True
    then have "real q * P = real m * 2 powi e"
      unfolding P_def using powi_split_ge [OF True] by (simp add: q_def)
    then have "f_val (f_round s m e) = of_int (with_sign s m) * 2 powi e"
      unfolding res with_sign_real \<sigma>_def by simp
    then show ?thesis by simp
  next
    case False
    define k where "k = nat (t - e)"
    define x where "x = real m / 2 ^ k"
    have qk: "q = rne_shift m k" using False by (simp add: q_def k_def)
    have e: "(2 :: real) powi e = P / 2 ^ k"
      unfolding P_def k_def using False by (intro powi_split_le) simp
    have v: "of_int (with_sign s m) * 2 powi e = \<sigma> * x * P"
      unfolding with_sign_real \<sigma>_def e x_def by simp
    have l: "?L = \<bar>real q - x\<bar> * P"
    proof -
      have "f_val (f_round s m e) - of_int (with_sign s m) * 2 powi e = \<sigma> * ((real q - x) * P)"
        unfolding res v by (simp add: algebra_simps)
      then show ?thesis using P \<sigma>(1) by (simp add: abs_mult)
    qed
    obtain u n d where uz: "f_unpack z = FFin u n d"
      using z by (auto simp add: f_finite_def split: fval.splits)
    have nb: "n < 2 ^ 24" using uz by (rule f_unpack_mantissa_less)
    have db: "- 149 \<le> d" using uz by (rule f_unpack_exp_ge)
    define \<tau> :: real where "\<tau> = (if u then - 1 else 1)"
    have w: "f_val z = \<tau> * real n * 2 powi d"
      by (simp add: f_val_FFin [OF uz] with_sign_real \<tau>_def)
    define y where "y = \<sigma> * \<tau> * real n * 2 powi d / P"
    have wy: "f_val z = \<sigma> * y * P"
    proof -
      have "\<sigma> * y * P = (\<sigma> * \<sigma>) * (\<tau> * real n * 2 powi d)"
        unfolding y_def using P by simp
      then show ?thesis unfolding w \<sigma>(2) by simp
    qed
    have r: "?R = \<bar>y - x\<bar> * P"
    proof -
      have "f_val z - of_int (with_sign s m) * 2 powi e = \<sigma> * ((y - x) * P)"
        unfolding wy v by (simp add: algebra_simps)
      then show ?thesis using P \<sigma>(1) by (simp add: abs_mult)
    qed
    have ne: "y \<noteq> real q" if "f_val z \<noteq> f_val (f_round s m e)"
      using that unfolding wy res by auto
    have "\<bar>real q - x\<bar> \<le> \<bar>y - x\<bar> \<and> (\<bar>real q - x\<bar> = \<bar>y - x\<bar> \<longrightarrow> y \<noteq> real q \<longrightarrow> even q)"
    proof (cases "t \<le> d")
      case True
      have "y = \<sigma> * \<tau> * real n * 2 ^ nat (d - t)"
        unfolding y_def powi_split_ge [OF True] P_def by simp
      also have "\<dots> = of_int ((if s then - 1 else 1) * (if u then - 1 else 1) * int n * 2 ^ nat (d - t))"
        by (simp add: \<sigma>_def \<tau>_def)
      finally obtain j :: int where j: "y = of_int j" ..
      have "even q" if "\<bar>real q - x\<bar> = \<bar>y - x\<bar>" "y \<noteq> real q"
      proof -
        have "j \<noteq> int (rne_shift m k)" using that(2) unfolding j qk by auto
        then show ?thesis using that(1) unfolding j qk x_def by (intro rne_shift_tie [of m k j]) simp_all
      qed
      then show ?thesis unfolding j qk x_def using rne_shift_nearest [of m k j] by simp
    next
      case dt: False
      then have "- 149 < t" using db by simp
      then have te: "t = e + int (nbits m) - 24" unfolding t_def by (simp add: max_def split: if_splits)
      then have nm: "nbits m = 24 + k" using False by (simp add: k_def)
      then have pos: "0 < m" by (cases "m = 0") (simp_all add: nbits_0)
      have "2 ^ (nbits m - 1) \<le> m" using nbits_ge [OF pos] .
      then have "2 ^ 23 * 2 ^ k \<le> m" using nm by (simp add: power_add)
      then have "real (2 ^ 23 * 2 ^ k) \<le> real m" unfolding of_nat_le_iff .
      then have xb: "2 ^ 23 \<le> x" unfolding x_def by (simp add: field_simps)
      define c where "c = nat (t - d)"
      have c: "0 < c" using dt by (simp add: c_def)
      have "(2 :: real) powi d = P / 2 ^ c"
        unfolding P_def c_def using dt by (intro powi_split_le) simp
      then have ay: "\<bar>y\<bar> = real n / 2 ^ c"
        unfolding y_def using P by (simp add: abs_mult \<sigma>_def \<tau>_def)
      have "real n < real (2 ^ 24)" using nb unfolding of_nat_less_iff .
      then have rn: "real n < 2 ^ 24" by simp
      have "(2 :: real) ^ 1 \<le> 2 ^ c" using c by (intro power_increasing) simp_all
      then have "real n < 2 ^ 23 * 2 ^ c" using rn by simp
      then have "\<bar>y\<bar> < 2 ^ 23"
        unfolding ay by (simp add: field_simps) 
      then have yb: "y < 2 ^ 23" by linarith
      have "\<bar>real q - x\<bar> \<le> \<bar>of_int (2 ^ 23) - x\<bar>"
        unfolding qk x_def by (rule rne_shift_nearest)
      then have "\<bar>real q - x\<bar> < \<bar>y - x\<bar>" using xb yb by simp
      then show ?thesis by simp
    qed
    then show ?thesis unfolding l r using P ne ev by auto
  qed
  then show "?L \<le> ?R" and "?L = ?R \<Longrightarrow> f_val z \<noteq> f_val (f_round s m e) \<Longrightarrow> even (f_frac (f_round s m e))"
    by simp_all
qed

lemma fmul_nearest:
  assumes "f_finite x" "f_finite y" "f_finite (fmul x y)"
  shows "nearest_binary32 (f_val x * f_val y) (fmul x y)"
proof -
  obtain s m e where ux: "f_unpack x = FFin s m e"
    using assms(1) by (auto simp add: f_finite_def split: fval.splits)
  obtain t n d where uy: "f_unpack y = FFin t n d"
    using assms(2) by (auto simp add: f_finite_def split: fval.splits)
  have p: "fmul x y = f_round (s \<noteq> t) (m * n) (e + d)" by (simp add: fmul_def ux uy)
  have v: "f_val x * f_val y = of_int (with_sign (s \<noteq> t) (m * n)) * 2 powi (e + d)"
    by (simp add: f_val_FFin [OF ux] f_val_FFin [OF uy] with_sign_def power_int_add)
  show ?thesis
    unfolding nearest_binary32_def v
    using assms(3) f_round_nearest [of "s \<noteq> t" "m * n" "e + d"] unfolding p by blast
qed

section \<open>The dot product kernels run\<close>

lemmas dot_prod_defs =
  volk_32fc_x2_dot_prod_32fc_generic_def volk_32fc_x2_dot_prod_32fc_u_sse3_def
  volk_32fc_x2_dot_prod_32fc_u_avx_def volk_32fc_x2_dot_prod_32fc_u_avx_fma_def
  volk_32fc_x2_dot_prod_32fc_a_sse3_def volk_32fc_x2_dot_prod_32fc_neon_def
  volk_32fc_x2_dot_prod_32fc_neon_opttests_def volk_32fc_x2_dot_prod_32fc_neon_optfma_def
  volk_32fc_x2_dot_prod_32fc_neon_optfmaunroll_def volk_32fc_x2_dot_prod_32fc_a_avx_def
  volk_32fc_x2_dot_prod_32fc_a_avx_fma_def

lemmas dot_prod_finish = sse3_finish_def avx_finish_def neon_finish_def a_sse3_halfPoints_def
  u_sse3_halfPoints_def mm_setzero_ps_def mm256_setzero_ps_def vdupq_n_f32_def vaddq_f32_def
  store_result_def add_to_result_def dp_init_def Let_def

lemma zero_points:
  "volk_32fc_x2_dot_prod_32fc_generic result input taps 0 =
     Some \<lparr>result_cell = c_zero, writes = [c_zero], reads = []\<rparr>"
  "list_all (\<lambda>v. v result input taps 0 = Some \<lparr>result_cell = c_zero, writes = [c_zero], reads = []\<rparr>)
     dot_prod_variants"
  by (simp_all add: dot_prod_variants_def dot_prod_defs dot_prod_finish for_loop_stop
      cadd_zero_zero fadd_zero_zero c_zero_def cadd_def)


lemma one_point_generic:
  "volk_32fc_x2_dot_prod_32fc_generic result input taps 1 =
     (if 2 \<le> length input \<and> 2 \<le> length taps
      then Some \<lparr>result_cell = cadd c_zero (cmul (input ! 0, input ! 1) (taps ! 0, taps ! 1)),
                  writes = [c_zero, cadd c_zero (cmul (input ! 0, input ! 1) (taps ! 0, taps ! 1))],
                  reads = [(Input, 0), (Input, 1), (Taps, 0), (Taps, 1)]\<rparr>
      else None)"
  by (simp add: dot_prod_defs dot_prod_finish for_loop_stop load_complex_def
      fadd_zero_zero c_zero_def)

lemma one_point_variants:
  "list_all (\<lambda>v. map_option result_cell (v result input taps 1) =
       (if 2 \<le> length input \<and> 2 \<le> length taps
        then Some (cadd c_zero (cmul (input ! 0, input ! 1) (taps ! 0, taps ! 1))) else None))
     dot_prod_variants"
  by (simp add: dot_prod_variants_def dot_prod_defs dot_prod_finish for_loop_stop for_loop_step
      load_complex_def accumulate_product_def
      cadd_zero_zero fadd_zero_zero c_zero_def cadd_def cmul_commute [of "(taps ! 0, taps ! Suc 0)"])

lemma quiet_init: "quiet result (dp_init result)"
  by (simp add: quiet_def dp_init_def)

lemma generic_loop_ok:
  assumes "4 * m \<le> length input" "4 * m \<le> length taps"
  shows "\<exists>in_p tp_p sum0 sum1 mem.
     for_loop 0 m (\<lambda>i. generic_step input taps) (0, 0, c_zero, c_zero, dp_init result)
       = Some (in_p, tp_p, sum0, sum1, mem) \<and> quiet result mem"
proof -
  let ?P = "\<lambda>i (t :: nat \<times> nat \<times> lv_32fc_t \<times> lv_32fc_t \<times> dp_mem).
     fst t = 4 * i \<and> fst (snd t) = 4 * i \<and> quiet result (snd (snd (snd (snd t))))"
  have "\<exists>t. for_loop 0 m (\<lambda>i. generic_step input taps) (0, 0, c_zero, c_zero, dp_init result) = Some t
          \<and> ?P m t"
  proof (rule for_loop_invariant)
    show "?P 0 (0, 0, c_zero, c_zero, dp_init result)" by (simp add: quiet_init)
    show "0 \<le> m" by simp
    fix i t assume "i < m" "?P i t"
    then show "\<exists>t'. generic_step input taps t = Some t' \<and> ?P (Suc i) t'"
      using assms by (cases t) (auto simp add: dp_load_ps_def quiet_def Let_def)
  qed
  then show ?thesis by (metis prod.collapse)
qed


lemma and_3_unat: "unat ((w :: uint) AND 3) = unat w mod 4"
proof -
  have "w AND 3 = take_bit 2 w" by (simp add: take_bit_eq_mask mask_eq_exp_minus_1)
  then show ?thesis by (simp add: unsigned_take_bit_eq take_bit_eq_mod unat_mod)
qed

lemma and_1_unat: "unat ((w :: uint) AND 1) = unat w mod 2"
proof -
  have "w AND 1 = take_bit 1 w" by (simp add: take_bit_eq_mask mask_eq_exp_minus_1)
  then show ?thesis by (simp add: unsigned_take_bit_eq take_bit_eq_mod unat_mod)
qed

lemma and_1_odd: "((w :: uint) AND 1 \<noteq> 0) = odd (unat w)"
proof -
  have "(w AND 1 \<noteq> 0) = (unat (w AND 1) \<noteq> 0)" by (simp add: unat_eq_0)
  then show ?thesis by (simp add: and_1_unat odd_iff_mod_2_eq_one)
qed

lemma unat_minus_and_3: "unat ((w :: uint) - (w AND 3)) = unat w - unat w mod 4"
proof -
  have "unat (w AND 3) \<le> unat w" by (simp add: and_3_unat)
  then have "w AND 3 \<le> w" by (simp add: word_le_nat_alt)
  then show ?thesis by (simp add: unat_sub and_3_unat)
qed


lemma sse3_loop_ok:
  assumes "4 * m \<le> length input" "4 * m \<le> length taps"
  shows "\<exists>a b d mem.
     for_loop 0 m (\<lambda>number. sse3_step input taps) (0, 0, d0, dp_init result)
       = Some (a, b, d, mem) \<and> quiet result mem"
proof -
  let ?P = "\<lambda>i (t :: nat \<times> nat \<times> m128 \<times> dp_mem).
     fst t = 2 * i \<and> fst (snd t) = 2 * i \<and> quiet result (snd (snd (snd t)))"
  have "\<exists>t. for_loop 0 m (\<lambda>number. sse3_step input taps) (0, 0, d0, dp_init result) = Some t
          \<and> ?P m t"
  proof (rule for_loop_invariant)
    show "?P 0 (0, 0, d0, dp_init result)" by (simp add: quiet_init)
    show "0 \<le> m" by simp
    fix i t assume "i < m" "?P i t"
    then show "\<exists>t'. sse3_step input taps t = Some t' \<and> ?P (Suc i) t'"
      using assms by (cases t) (auto simp add: dp_load_ps_def quiet_def Let_def)
  qed
  then show ?thesis by (metis prod.collapse)
qed

lemma avx_loop_ok:
  assumes "8 * m \<le> length input" "8 * m \<le> length taps"
  shows "\<exists>a b d mem.
     for_loop 0 m (\<lambda>number. avx_step input taps) (0, 0, d0, dp_init result)
       = Some (a, b, d, mem) \<and> quiet result mem"
proof -
  let ?P = "\<lambda>i (t :: nat \<times> nat \<times> m256 \<times> dp_mem).
     fst t = 4 * i \<and> fst (snd t) = 4 * i \<and> quiet result (snd (snd (snd t)))"
  have "\<exists>t. for_loop 0 m (\<lambda>number. avx_step input taps) (0, 0, d0, dp_init result) = Some t
          \<and> ?P m t"
  proof (rule for_loop_invariant)
    show "?P 0 (0, 0, d0, dp_init result)" by (simp add: quiet_init)
    show "0 \<le> m" by simp
    fix i t assume "i < m" "?P i t"
    then show "\<exists>t'. avx_step input taps t = Some t' \<and> ?P (Suc i) t'"
      using assms by (cases t) (auto simp add: dp_load256_ps_def quiet_def Let_def)
  qed
  then show ?thesis by (metis prod.collapse)
qed

lemma avx_fma_loop_ok:
  assumes "8 * m \<le> length input" "8 * m \<le> length taps"
  shows "\<exists>a b d mem.
     for_loop 0 m (\<lambda>number. avx_fma_step input taps) (0, 0, d0, dp_init result)
       = Some (a, b, d, mem) \<and> quiet result mem"
proof -
  let ?P = "\<lambda>i (t :: nat \<times> nat \<times> m256 \<times> dp_mem).
     fst t = 4 * i \<and> fst (snd t) = 4 * i \<and> quiet result (snd (snd (snd t)))"
  have "\<exists>t. for_loop 0 m (\<lambda>number. avx_fma_step input taps) (0, 0, d0, dp_init result) = Some t
          \<and> ?P m t"
  proof (rule for_loop_invariant)
    show "?P 0 (0, 0, d0, dp_init result)" by (simp add: quiet_init)
    show "0 \<le> m" by simp
    fix i t assume "i < m" "?P i t"
    then show "\<exists>t'. avx_fma_step input taps t = Some t' \<and> ?P (Suc i) t'"
      using assms by (cases t) (auto simp add: dp_load256_ps_def quiet_def Let_def)
  qed
  then show ?thesis by (metis prod.collapse)
qed

lemma neon_loop_ok:
  assumes "8 * m \<le> length input" "8 * m \<le> length taps"
  shows "\<exists>acc mem.
     for_loop 0 m (\<lambda>number. neon_step input taps) (0, 0, acc0, dp_init result)
       = Some (4 * m, 4 * m, acc, mem) \<and> quiet result mem"
proof -
  let ?P = "\<lambda>i (t :: nat \<times> nat \<times> (m128 \<times> m128) \<times> dp_mem).
     fst t = 4 * i \<and> fst (snd t) = 4 * i \<and> quiet result (snd (snd (snd t)))"
  have "\<exists>t. for_loop 0 m (\<lambda>number. neon_step input taps) (0, 0, acc0, dp_init result) = Some t
          \<and> ?P m t"
  proof (rule for_loop_invariant)
    show "?P 0 (0, 0, acc0, dp_init result)" by (simp add: quiet_init)
    show "0 \<le> m" by simp
    fix i t assume "i < m" "?P i t"
    then show "\<exists>t'. neon_step input taps t = Some t' \<and> ?P (Suc i) t'"
      using assms by (cases t) (auto simp add: vld2q_f32_def quiet_def Let_def)
  qed
  then show ?thesis by (metis prod.collapse)
qed

lemma neon_opttests_loop_ok:
  assumes "8 * m \<le> length input" "8 * m \<le> length taps"
  shows "\<exists>acc mem.
     for_loop 0 m (\<lambda>number. neon_opttests_step input taps) (0, 0, acc0, dp_init result)
       = Some (4 * m, 4 * m, acc, mem) \<and> quiet result mem"
proof -
  let ?P = "\<lambda>i (t :: nat \<times> nat \<times> (m128 \<times> m128) \<times> dp_mem).
     fst t = 4 * i \<and> fst (snd t) = 4 * i \<and> quiet result (snd (snd (snd t)))"
  have "\<exists>t. for_loop 0 m (\<lambda>number. neon_opttests_step input taps) (0, 0, acc0, dp_init result) = Some t
          \<and> ?P m t"
  proof (rule for_loop_invariant)
    show "?P 0 (0, 0, acc0, dp_init result)" by (simp add: quiet_init)
    show "0 \<le> m" by simp
    fix i t assume "i < m" "?P i t"
    then show "\<exists>t'. neon_opttests_step input taps t = Some t' \<and> ?P (Suc i) t'"
      using assms by (cases t) (auto simp add: vld2q_f32_def quiet_def Let_def)
  qed
  then show ?thesis by (metis prod.collapse)
qed

lemma neon_optfma_loop_ok:
  assumes "8 * m \<le> length input" "8 * m \<le> length taps"
  shows "\<exists>acc1 acc2 mem.
     for_loop 0 m (\<lambda>number. neon_optfma_step input taps) (0, 0, acc0, acc0', dp_init result)
       = Some (4 * m, 4 * m, acc1, acc2, mem) \<and> quiet result mem"
proof -
  let ?P = "\<lambda>i (t :: nat \<times> nat \<times> (m128 \<times> m128) \<times> (m128 \<times> m128) \<times> dp_mem).
     fst t = 4 * i \<and> fst (snd t) = 4 * i \<and> quiet result (snd (snd (snd (snd t))))"
  have "\<exists>t. for_loop 0 m (\<lambda>number. neon_optfma_step input taps) (0, 0, acc0, acc0', dp_init result) = Some t
          \<and> ?P m t"
  proof (rule for_loop_invariant)
    show "?P 0 (0, 0, acc0, acc0', dp_init result)" by (simp add: quiet_init)
    show "0 \<le> m" by simp
    fix i t assume "i < m" "?P i t"
    then show "\<exists>t'. neon_optfma_step input taps t = Some t' \<and> ?P (Suc i) t'"
      using assms by (cases t) (auto simp add: vld2q_f32_def quiet_def Let_def)
  qed
  then show ?thesis by (metis prod.collapse)
qed

lemma neon_optfmaunroll_loop_ok:
  assumes "16 * m \<le> length input" "16 * m \<le> length taps"
  shows "\<exists>p0 p1 p2 p3 q0 q1 q2 q3 mem.
     for_loop 0 m (\<lambda>number. neon_optfmaunroll_step input taps) (0, 0, (z, z, z, z), (z, z, z, z), dp_init result)
       = Some (8 * m, 8 * m, (p0, p1, p2, p3), (q0, q1, q2, q3), mem) \<and> quiet result mem"
proof -
  let ?P = "\<lambda>i (t :: nat \<times> nat \<times> (m128 \<times> m128 \<times> m128 \<times> m128) \<times> (m128 \<times> m128 \<times> m128 \<times> m128) \<times> dp_mem).
     fst t = 8 * i \<and> fst (snd t) = 8 * i \<and> quiet result (snd (snd (snd (snd t))))"
  have "\<exists>t. for_loop 0 m (\<lambda>number. neon_optfmaunroll_step input taps) (0, 0, (z, z, z, z), (z, z, z, z), dp_init result) = Some t
          \<and> ?P m t"
  proof (rule for_loop_invariant)
    show "?P 0 (0, 0, (z, z, z, z), (z, z, z, z), dp_init result)" by (simp add: quiet_init)
    show "0 \<le> m" by simp
    fix i t assume "i < m" "?P i t"
    then show "\<exists>t'. neon_optfmaunroll_step input taps t = Some t' \<and> ?P (Suc i) t'"
      using assms by (cases t) (auto simp add: vld4q_f32_def quiet_def Let_def)
  qed
  then show ?thesis by (metis prod.collapse)
qed

lemma unat_a_sse3_halfPoints:
  "unat (a_sse3_halfPoints num_points) = (unat num_points * 8 mod 2 ^ 32) div 16"
  by (simp add: a_sse3_halfPoints_def Let_def unat_drop_bit_eq drop_bit_eq_div unat_word_ariths)

lemma halfPoints_mod: "(u * 8 mod 2 ^ 32) div 16 = (u mod 2 ^ 29) div (2 :: nat)"
proof -
  have "u * 8 mod 2 ^ 32 = 8 * (u mod 2 ^ 29)"
    using mult_mod_right [of 8 u "2 ^ 29"] by (simp add: mult.commute)
  then show ?thesis by simp
qed

lemma a_sse3_halfPoints_le: "unat (a_sse3_halfPoints num_points) \<le> unat num_points div 2"
  unfolding unat_a_sse3_halfPoints halfPoints_mod
  by (rule div_le_mono) simp

lemma halfPoints_agree_iff:
  "(a_sse3_halfPoints num_points = u_sse3_halfPoints num_points) = (unat num_points < 2 ^ 29)"
proof -
  let ?u = "unat num_points"
  have "(a_sse3_halfPoints num_points = u_sse3_halfPoints num_points)
      = (unat (a_sse3_halfPoints num_points) = unat (u_sse3_halfPoints num_points))"
    by (simp add: word_unat_eq_iff)
  also have "\<dots> = ((?u mod 2 ^ 29) div 2 = ?u div 2)"
    unfolding unat_a_sse3_halfPoints halfPoints_mod
    by (simp add: u_sse3_halfPoints_def unat_div)
  also have "\<dots> = (?u < 2 ^ 29)"
  proof
    assume e: "(?u mod 2 ^ 29) div 2 = ?u div 2"
    show "?u < 2 ^ 29"
    proof (rule ccontr)
      assume "\<not> ?u < 2 ^ 29"
      then have "2 ^ 28 \<le> ?u div 2" by simp
      moreover have "?u mod 2 ^ 29 < 2 ^ 29" by simp
      then have "(?u mod 2 ^ 29) div 2 < 2 ^ 28" by simp
      ultimately show False using e by simp
    qed
  next
    assume "?u < 2 ^ 29"
    then show "(?u mod 2 ^ 29) div 2 = ?u div 2" by simp
  qed
  finally show ?thesis .
qed


lemma sse3_finish_ok:
  assumes "quiet result mem" "2 * unat num_points \<le> length input" "2 * unat num_points \<le> length taps"
  shows "\<exists>mem'. sse3_finish input taps num_points d mem = Some mem' \<and> length (writes mem') = 1"
proof (cases "odd (unat num_points)")
  case True
  then have "0 < unat num_points" by (cases "unat num_points") auto
  then have "2 * (unat num_points - 1) + 2 \<le> length input" "2 * (unat num_points - 1) + 2 \<le> length taps"
    using assms(2,3) by auto
  then show ?thesis
    using assms(1) True
    by (simp add: sse3_finish_def and_1_odd accumulate_product_def load_complex_def
        store_result_def quiet_def Let_def)
next
  case False
  then show ?thesis
    using assms(1) by (simp add: sse3_finish_def and_1_odd store_result_def quiet_def Let_def)
qed

lemma tail_loop_ok:
  assumes "quiet result mem" "2 * n \<le> length input" "2 * n \<le> length taps" "first \<le> n"
  shows "\<exists>acc' mem'. for_loop first n (accumulate_product input taps) (acc, mem) = Some (acc', mem')
           \<and> quiet result mem'"
proof -
  let ?P = "\<lambda>(i :: nat) (t :: lv_32fc_t \<times> dp_mem). quiet result (snd t)"
  have "\<exists>t. for_loop first n (accumulate_product input taps) (acc, mem) = Some t \<and> ?P n t"
  proof (rule for_loop_invariant)
    show "?P first (acc, mem)" using assms(1) by simp
    show "first \<le> n" by fact
    fix i t assume "i < n" "?P i t"
    then show "\<exists>t'. accumulate_product input taps i t = Some t' \<and> ?P (Suc i) t'"
      using assms(2,3) by (auto simp add: accumulate_product_def load_complex_def quiet_def)
  qed
  then show ?thesis by (metis prod.collapse)
qed

lemma avx_finish_ok:
  assumes "quiet result mem" "2 * unat num_points \<le> length input" "2 * unat num_points \<le> length taps"
  shows "\<exists>mem'. avx_finish input taps num_points d mem = Some mem' \<and> length (writes mem') = 1"
proof -
  have "\<exists>acc' mem'.
    for_loop (unat num_points - unat num_points mod 4) (unat num_points) (accumulate_product input taps)
       (cadd c_zero (sum4 (m256_complex d)), mem) = Some (acc', mem') \<and> quiet result mem'"
    by (rule tail_loop_ok [OF assms]) simp
  then obtain acc' mem' where
    "for_loop (unat num_points - unat num_points mod 4) (unat num_points) (accumulate_product input taps)
       (cadd c_zero (sum4 (m256_complex d)), mem) = Some (acc', mem')" "quiet result mem'"
    by blast
  then show ?thesis
    by (simp add: avx_finish_def unat_minus_and_3 store_result_def quiet_def Let_def)
qed

lemma neon_finish_ok:
  assumes "quiet result mem" "2 * unat num_points \<le> length input" "2 * unat num_points \<le> length taps"
    and "first \<le> unat num_points"
  shows "\<exists>mem'. neon_finish input taps first num_points first first acc mem = Some mem'
           \<and> length (writes mem') = 1 + (unat num_points - first)"
proof -
  let ?mem1 = "store_result (sum4 (vst2q_f32 acc)) mem"
  let ?P = "\<lambda>(i :: nat) (t :: nat \<times> nat \<times> dp_mem).
     fst t = i \<and> fst (snd t) = i \<and> length (writes (snd (snd t))) = 1 + (i - first)"
  have "\<exists>t. for_loop first (unat num_points) (\<lambda>number. neon_tail_step input taps) (first, first, ?mem1)
          = Some t \<and> ?P (unat num_points) t"
  proof (rule for_loop_invariant)
    show "?P first (first, first, ?mem1)" using assms(1) by (simp add: store_result_def quiet_def)
    show "first \<le> unat num_points" by fact
    fix i t assume "first \<le> i" "i < unat num_points" "?P i t"
    then show "\<exists>t'. neon_tail_step input taps t = Some t' \<and> ?P (Suc i) t'"
      using assms(2,3)
      by (cases t) (auto simp add: load_complex_def add_to_result_def store_result_def Suc_diff_le)
  qed
  then obtain a b mem' where
    "for_loop first (unat num_points) (\<lambda>number. neon_tail_step input taps) (first, first, ?mem1)
       = Some (a, b, mem')" "length (writes mem') = 1 + (unat num_points - first)"
    by (metis prod.collapse)
  then show ?thesis by (simp add: neon_finish_def Let_def)
qed

lemma generic_writes:
  assumes "2 * unat num_points \<le> length input" "2 * unat num_points \<le> length taps"
  shows "\<exists>mem. volk_32fc_x2_dot_prod_32fc_generic result input taps num_points = Some mem
           \<and> length (writes mem) = 1 + unat num_points mod 2"
proof -
  have b2: "4 * (unat num_points div 2) \<le> length input" "4 * (unat num_points div 2) \<le> length taps"
    using assms by auto
  obtain in_p tp_p sum0 sum1 mem where l:
    "for_loop 0 (unat num_points div 2) (\<lambda>i. generic_step input taps)
       (0, 0, c_zero, c_zero, dp_init result) = Some (in_p, tp_p, sum0, sum1, mem)"
    "quiet result mem"
    using generic_loop_ok [of "unat num_points div 2" input taps result] b2 by blast
  show ?thesis
  proof (cases "odd (unat num_points)")
    case True
    then have "0 < unat num_points" by (cases "unat num_points") auto
    then have "2 * (unat num_points - 1) + 2 \<le> length input" "2 * (unat num_points - 1) + 2 \<le> length taps"
      using assms by auto
    then show ?thesis
      using l True
      by (simp add: volk_32fc_x2_dot_prod_32fc_generic_def unat_div and_1_odd load_complex_def
          add_to_result_def store_result_def quiet_def Let_def odd_iff_mod_2_eq_one)
  next
    case False
    then show ?thesis
      using l
      by (simp add: volk_32fc_x2_dot_prod_32fc_generic_def unat_div and_1_odd
          store_result_def quiet_def Let_def)
  qed
qed

lemma u_sse3_writes:
  assumes "2 * unat num_points \<le> length input" "2 * unat num_points \<le> length taps"
  shows "\<exists>mem. volk_32fc_x2_dot_prod_32fc_u_sse3 result input taps num_points = Some mem
           \<and> length (writes mem) = 1"
proof -
  have b2: "4 * (unat num_points div 2) \<le> length input" "4 * (unat num_points div 2) \<le> length taps"
    using assms by auto
  obtain a b d mem where l:
    "for_loop 0 (unat num_points div 2) (\<lambda>number. sse3_step input taps)
       (0, 0, mm_setzero_ps, dp_init result) = Some (a, b, d, mem)" "quiet result mem"
    using sse3_loop_ok [of "unat num_points div 2" input taps mm_setzero_ps result] b2 by blast
  show ?thesis
    using l sse3_finish_ok [OF l(2) assms, of d]
    by (simp add: volk_32fc_x2_dot_prod_32fc_u_sse3_def u_sse3_halfPoints_def unat_div)
qed

lemma a_sse3_writes:
  assumes "2 * unat num_points \<le> length input" "2 * unat num_points \<le> length taps"
  shows "\<exists>mem. volk_32fc_x2_dot_prod_32fc_a_sse3 result input taps num_points = Some mem
           \<and> length (writes mem) = 1"
proof -
  have "4 * unat (a_sse3_halfPoints num_points) \<le> 2 * unat num_points"
    using a_sse3_halfPoints_le [of num_points] by simp
  then obtain a b d mem where l:
    "for_loop 0 (unat (a_sse3_halfPoints num_points)) (\<lambda>number. sse3_step input taps)
       (0, 0, mm_setzero_ps, dp_init result) = Some (a, b, d, mem)" "quiet result mem"
    using sse3_loop_ok [of "unat (a_sse3_halfPoints num_points)" input taps mm_setzero_ps result] assms
    by (meson le_trans)
  show ?thesis
    using l sse3_finish_ok [OF l(2) assms, of d]
    by (simp add: volk_32fc_x2_dot_prod_32fc_a_sse3_def)
qed

lemma avx_writes_aux:
  assumes "2 * unat (num_points :: uint) \<le> length input" "2 * unat num_points \<le> length taps"
  shows "\<exists>mem. do {
     let quarterPoints = unat (num_points div 4);
     (a, b, dotProdVal, mem) \<leftarrow>
        for_loop 0 quarterPoints (\<lambda>number. avx_step input taps)
          (0, 0, mm256_setzero_ps, dp_init result);
     avx_finish input taps num_points dotProdVal mem
   } = Some mem \<and> length (writes mem) = 1"
proof -
  have b4: "8 * (unat num_points div 4) \<le> length input" "8 * (unat num_points div 4) \<le> length taps"
    using assms by auto
  obtain a b d mem where l:
    "for_loop 0 (unat num_points div 4) (\<lambda>number. avx_step input taps)
       (0, 0, mm256_setzero_ps, dp_init result) = Some (a, b, d, mem)" "quiet result mem"
    using avx_loop_ok [of "unat num_points div 4" input taps mm256_setzero_ps result] b4 by blast
  show ?thesis
    using l avx_finish_ok [OF l(2) assms, of d] by (simp add: unat_div)
qed

lemma avx_fma_writes_aux:
  assumes "2 * unat (num_points :: uint) \<le> length input" "2 * unat num_points \<le> length taps"
  shows "\<exists>mem. do {
     let quarterPoints = unat (num_points div 4);
     (a, b, dotProdVal, mem) \<leftarrow>
        for_loop 0 quarterPoints (\<lambda>number. avx_fma_step input taps)
          (0, 0, mm256_setzero_ps, dp_init result);
     avx_finish input taps num_points dotProdVal mem
   } = Some mem \<and> length (writes mem) = 1"
proof -
  have b4: "8 * (unat num_points div 4) \<le> length input" "8 * (unat num_points div 4) \<le> length taps"
    using assms by auto
  obtain a b d mem where l:
    "for_loop 0 (unat num_points div 4) (\<lambda>number. avx_fma_step input taps)
       (0, 0, mm256_setzero_ps, dp_init result) = Some (a, b, d, mem)" "quiet result mem"
    using avx_fma_loop_ok [of "unat num_points div 4" input taps mm256_setzero_ps result] b4 by blast
  show ?thesis
    using l avx_finish_ok [OF l(2) assms, of d] by (simp add: unat_div)
qed

lemma mod_as_diff4: "(n :: nat) - n div 4 * 4 = n mod 4"
  by (simp add: minus_div_mult_eq_mod)

lemma mod_as_diff8: "(n :: nat) - n div 8 * 8 = n mod 8"
  by (simp add: minus_div_mult_eq_mod)

lemma neon_writes:
  assumes "2 * unat num_points \<le> length input" "2 * unat num_points \<le> length taps"
  shows "\<exists>mem. volk_32fc_x2_dot_prod_32fc_neon result input taps num_points = Some mem
           \<and> length (writes mem) = 1 + unat num_points mod 4"
proof -
  have b4: "8 * (unat num_points div 4) \<le> length input" "8 * (unat num_points div 4) \<le> length taps"
    using assms by auto
  let ?m = "unat num_points div 4"
  obtain acc mem where l:
    "for_loop 0 ?m (\<lambda>number. neon_step input taps)
       (0, 0, (vdupq_n_f32 f_zero, vdupq_n_f32 f_zero), dp_init result) = Some (4 * ?m, 4 * ?m, acc, mem)"
    "quiet result mem"
    using neon_loop_ok [of ?m input taps "(vdupq_n_f32 f_zero, vdupq_n_f32 f_zero)" result] b4 by blast
  have "\<exists>mem'. neon_finish input taps (?m * 4) num_points (?m * 4) (?m * 4) acc mem = Some mem'
           \<and> length (writes mem') = 1 + (unat num_points - ?m * 4)"
    by (rule neon_finish_ok [OF l(2) assms]) simp
  then show ?thesis
    using l
    by (simp add: volk_32fc_x2_dot_prod_32fc_neon_def unat_div mult.commute [of 4] mod_as_diff4 Let_def)
qed

lemma neon_opttests_writes:
  assumes "2 * unat num_points \<le> length input" "2 * unat num_points \<le> length taps"
  shows "\<exists>mem. volk_32fc_x2_dot_prod_32fc_neon_opttests result input taps num_points = Some mem
           \<and> length (writes mem) = 1 + unat num_points mod 4"
proof -
  have b4: "8 * (unat num_points div 4) \<le> length input" "8 * (unat num_points div 4) \<le> length taps"
    using assms by auto
  let ?m = "unat num_points div 4"
  obtain acc mem where l:
    "for_loop 0 ?m (\<lambda>number. neon_opttests_step input taps)
       (0, 0, (vdupq_n_f32 f_zero, vdupq_n_f32 f_zero), dp_init result) = Some (4 * ?m, 4 * ?m, acc, mem)"
    "quiet result mem"
    using neon_opttests_loop_ok [of ?m input taps "(vdupq_n_f32 f_zero, vdupq_n_f32 f_zero)" result] b4
    by blast
  have "\<exists>mem'. neon_finish input taps (?m * 4) num_points (?m * 4) (?m * 4) acc mem = Some mem'
           \<and> length (writes mem') = 1 + (unat num_points - ?m * 4)"
    by (rule neon_finish_ok [OF l(2) assms]) simp
  then show ?thesis
    using l
    by (simp add: volk_32fc_x2_dot_prod_32fc_neon_opttests_def unat_div mult.commute [of 4] mod_as_diff4
        Let_def)
qed

lemma neon_optfma_writes:
  assumes "2 * unat num_points \<le> length input" "2 * unat num_points \<le> length taps"
  shows "\<exists>mem. volk_32fc_x2_dot_prod_32fc_neon_optfma result input taps num_points = Some mem
           \<and> length (writes mem) = 1 + unat num_points mod 4"
proof -
  have b4: "8 * (unat num_points div 4) \<le> length input" "8 * (unat num_points div 4) \<le> length taps"
    using assms by auto
  let ?m = "unat num_points div 4"
  let ?z = "(vdupq_n_f32 f_zero, vdupq_n_f32 f_zero)"
  obtain acc1 acc2 mem where l:
    "for_loop 0 ?m (\<lambda>number. neon_optfma_step input taps)
       (0, 0, ?z, ?z, dp_init result) = Some (4 * ?m, 4 * ?m, acc1, acc2, mem)"
    "quiet result mem"
    using neon_optfma_loop_ok [of ?m input taps ?z ?z result] b4 by blast
  have "\<exists>mem'. neon_finish input taps (?m * 4) num_points (?m * 4) (?m * 4)
            (vaddq_f32 (fst acc1) (fst acc2), vaddq_f32 (snd acc1) (snd acc2)) mem = Some mem'
           \<and> length (writes mem') = 1 + (unat num_points - ?m * 4)"
    by (rule neon_finish_ok [OF l(2) assms]) simp
  then show ?thesis
    using l
    by (simp add: volk_32fc_x2_dot_prod_32fc_neon_optfma_def unat_div mult.commute [of 4] mod_as_diff4
        Let_def)
qed

lemma neon_optfmaunroll_writes:
  assumes "2 * unat num_points \<le> length input" "2 * unat num_points \<le> length taps"
  shows "\<exists>mem. volk_32fc_x2_dot_prod_32fc_neon_optfmaunroll result input taps num_points = Some mem
           \<and> length (writes mem) = 1 + unat num_points mod 8"
proof -
  have b8: "16 * (unat num_points div 8) \<le> length input" "16 * (unat num_points div 8) \<le> length taps"
    using assms by auto
  let ?m = "unat num_points div 8"
  let ?z = "vdupq_n_f32 f_zero"
  obtain p0 p1 p2 p3 q0 q1 q2 q3 mem where l:
    "for_loop 0 ?m (\<lambda>number. neon_optfmaunroll_step input taps)
       (0, 0, (?z, ?z, ?z, ?z), (?z, ?z, ?z, ?z), dp_init result)
     = Some (8 * ?m, 8 * ?m, (p0, p1, p2, p3), (q0, q1, q2, q3), mem)"
    "quiet result mem"
    using neon_optfmaunroll_loop_ok [of ?m input taps ?z result] b8 by blast
  have "\<exists>mem'. neon_finish input taps (?m * 8) num_points (?m * 8) (?m * 8)
            (vaddq_f32 (vaddq_f32 p0 p2) (vaddq_f32 q0 q2), vaddq_f32 (vaddq_f32 p1 p3) (vaddq_f32 q1 q3)) mem
            = Some mem'
           \<and> length (writes mem') = 1 + (unat num_points - ?m * 8)"
    by (rule neon_finish_ok [OF l(2) assms]) simp
  then show ?thesis
    using l
    by (simp add: volk_32fc_x2_dot_prod_32fc_neon_optfmaunroll_def unat_div mult.commute [of 8]
        mod_as_diff8 Let_def)
qed

lemma zero_points_deinterleave:
  "volk_32fc_s32f_deinterleave_real_16i_generic iBuffer complexVector scalar 0 = Some (deint_init iBuffer)"
  "volk_32fc_s32f_deinterleave_real_16i_a_sse iBuffer complexVector scalar 0 = Some (deint_init iBuffer)"
  "volk_32fc_s32f_deinterleave_real_16i_a_avx2 iBuffer complexVector scalar 0 = Some (deint_init iBuffer)"
  "volk_32fc_s32f_deinterleave_real_16i_u_avx2 iBuffer complexVector scalar 0 = Some (deint_init iBuffer)"
  by (simp_all add: volk_32fc_s32f_deinterleave_real_16i_generic_def
      volk_32fc_s32f_deinterleave_real_16i_a_sse_def volk_32fc_s32f_deinterleave_real_16i_a_avx2_def
      volk_32fc_s32f_deinterleave_real_16i_u_avx2_def for_loop_stop deint_init_def)

subsection \<open>The SSE3 kernels against the generic kernel\<close>







subsection \<open>Up to three samples\<close>

lemma cadd_absorb_zero: "cadd (cadd c_zero a) (cadd c_zero b) = cadd (cadd c_zero a) b"
  by (simp add: cadd_def c_zero_def fadd_absorb_zero)

lemma generic_inline_product:
  "(fadd (fst s) (fsub (fmul x0 y0) (fmul x1 y1)), fadd (snd s) (fadd (fmul x0 y1) (fmul x1 y0)))
     = cadd s (cmul (x0, x1) (y0, y1))"
  by (simp add: cadd_def cmul_def)







subsection \<open>Four samples whose products cancel\<close>








section \<open>The claims\<close>

text \<open>
  Claim C1.  Every deinterleave kernel produces, for every input, scale and length, the
  same 16-bit outputs as the generic kernel.  The code does not: in its main loop the
  AVX2 kernel saturates a scaled sample outside the 16-bit range, where the generic
  kernel, and the AVX2 kernel's own tail loop, wrap.  Nine samples with real part
  40000.0, scaled by 1.0: the first eight come out as 32767 from the AVX2 kernel and the
  ninth as -25536 (\<^verbatim>\<open>0x9C40\<close>); the generic kernel gives -25536 nine times.
\<close>

theorem avx2_saturates_where_generic_wraps:
  "map_option iBuf
     (volk_32fc_s32f_deinterleave_real_16i_a_avx2 [0, 0, 0, 0, 0, 0, 0, 0, 0]
        [0x471C4000, 0, 0x471C4000, 0, 0x471C4000, 0, 0x471C4000, 0, 0x471C4000, 0,
         0x471C4000, 0, 0x471C4000, 0, 0x471C4000, 0, 0x471C4000, 0] 0x3F800000 9)
     = Some [0x7FFF, 0x7FFF, 0x7FFF, 0x7FFF, 0x7FFF, 0x7FFF, 0x7FFF, 0x7FFF, 0x9C40]
   \<and> map_option iBuf
     (volk_32fc_s32f_deinterleave_real_16i_generic [0, 0, 0, 0, 0, 0, 0, 0, 0]
        [0x471C4000, 0, 0x471C4000, 0, 0x471C4000, 0, 0x471C4000, 0, 0x471C4000, 0,
         0x471C4000, 0, 0x471C4000, 0, 0x471C4000, 0, 0x471C4000, 0] 0x3F800000 9)
     = Some [0x9C40, 0x9C40, 0x9C40, 0x9C40, 0x9C40, 0x9C40, 0x9C40, 0x9C40, 0x9C40]"
  by (simp add: a_avx2_run generic_run upt_rec scalar_formula_40000 avx2_formula_40000)





text \<open>
  Claim C3.  With \<open>num_points\<close> 0 or 1 every kernel leaves in \<^verbatim>\<open>*result\<close> the same bits
  as the generic kernel.  As stated the claim adds that for one point this is the product
  \<open>input[0] * taps[0]\<close> itself; it is the product added to the zero accumulator, and
  the sum of \<open>+0\<close> and a \<open>-0\<close> component of the product is \<open>+0\<close>: with
  \<open>input[0] = -0 + 0i\<close> and \<open>taps[0] = 1 + 0i\<close> the product is \<open>-0 + 0i\<close> and the
  result is \<open>+0 + 0i\<close>.
\<close>

theorem one_point_negative_zero_counterexample:
  "map_option result_cell
     (volk_32fc_x2_dot_prod_32fc_generic (0, 0) [0x80000000, 0] [0x3F800000, 0] 1) = Some (0, 0)
   \<and> cmul (0x80000000, 0) (0x3F800000, 0) = (0x80000000, 0)"
  by (simp add: one_point_generic) (simp add: cadd_def cmul_def c_zero_def float_eval)

text \<open>
  Claim C3, amended.  With \<open>num_points\<close> 0 or 1 every kernel leaves in \<^verbatim>\<open>*result\<close> the
  same bits as the generic kernel (both fail when a buffer is too short for the one
  sample); for 0 points that is \<open>(+0, +0)\<close> and for one point it is
  \<open>(+0, +0) + input[0] * taps[0]\<close>.
\<close>

theorem short_inputs_match_generic:
  "list_all (\<lambda>v. map_option result_cell (v result input taps 0)
                   = map_option result_cell (volk_32fc_x2_dot_prod_32fc_generic result input taps 0)
                 \<and> map_option result_cell (v result input taps 1)
                   = map_option result_cell (volk_32fc_x2_dot_prod_32fc_generic result input taps 1))
     dot_prod_variants
   \<and> map_option result_cell (volk_32fc_x2_dot_prod_32fc_generic result input taps 0) = Some c_zero
   \<and> map_option result_cell (volk_32fc_x2_dot_prod_32fc_generic result input taps 1)
     = (if 2 \<le> length input \<and> 2 \<le> length taps
        then Some (cadd c_zero (cmul (input ! 0, input ! 1) (taps ! 0, taps ! 1))) else None)"
proof -
  have z: "list_all (\<lambda>v. map_option result_cell (v result input taps 0) = Some c_zero) dot_prod_variants"
    using zero_points(2) [of result input taps] by (auto simp add: list_all_iff)
  show ?thesis
    using z one_point_variants [of result input taps]
    by (simp add: zero_points(1) one_point_generic list_all_iff)
qed

text \<open>
  Claim C4.  Every dot product kernel stores to \<^verbatim>\<open>*result\<close> exactly once.  The generic
  kernel does not when \<open>num_points\<close> is odd: it stores the sum of its two accumulators
  and then adds the last product to \<^verbatim>\<open>*result\<close>, a second store.
\<close>

theorem generic_stores_twice_counterexample:
  "map_option (\<lambda>mem. length (writes mem))
     (volk_32fc_x2_dot_prod_32fc_generic (0, 0) [0x3F800000, 0] [0x3F800000, 0] 1) = Some 2"
  by (simp add: one_point_generic)

text \<open>
  Claim C4, amended.  On buffers that hold \<open>num_points\<close> samples, the SSE3 and AVX
  kernels store to \<^verbatim>\<open>*result\<close> exactly once; the generic kernel stores once and once
  more when \<open>num_points\<close> is odd; the NEON kernels store once and once more for each
  sample of the tail (\<open>num_points mod 4\<close>, and \<open>num_points mod 8\<close> in the unrolled
  kernel).
\<close>

theorem dot_prod_stores:
  assumes "2 * unat num_points \<le> length input" "2 * unat num_points \<le> length taps"
  shows "list_all (\<lambda>v. \<exists>mem. v result input taps num_points = Some mem \<and> length (writes mem) = 1)
           [volk_32fc_x2_dot_prod_32fc_u_sse3, volk_32fc_x2_dot_prod_32fc_a_sse3,
            volk_32fc_x2_dot_prod_32fc_u_avx, volk_32fc_x2_dot_prod_32fc_a_avx,
            volk_32fc_x2_dot_prod_32fc_u_avx_fma, volk_32fc_x2_dot_prod_32fc_a_avx_fma]
       \<and> (\<exists>mem. volk_32fc_x2_dot_prod_32fc_generic result input taps num_points = Some mem
              \<and> length (writes mem) = 1 + unat num_points mod 2)
       \<and> list_all (\<lambda>v. \<exists>mem. v result input taps num_points = Some mem
              \<and> length (writes mem) = 1 + unat num_points mod 4)
           [volk_32fc_x2_dot_prod_32fc_neon, volk_32fc_x2_dot_prod_32fc_neon_opttests,
            volk_32fc_x2_dot_prod_32fc_neon_optfma]
       \<and> (\<exists>mem. volk_32fc_x2_dot_prod_32fc_neon_optfmaunroll result input taps num_points = Some mem
              \<and> length (writes mem) = 1 + unat num_points mod 8)"
  using generic_writes [OF assms, of result] u_sse3_writes [OF assms, of result]
    a_sse3_writes [OF assms, of result]
    avx_writes_aux [OF assms, of result] avx_fma_writes_aux [OF assms, of result]
    neon_writes [OF assms, of result] neon_opttests_writes [OF assms, of result]
    neon_optfma_writes [OF assms, of result] neon_optfmaunroll_writes [OF assms, of result]
  unfolding volk_32fc_x2_dot_prod_32fc_u_avx_def volk_32fc_x2_dot_prod_32fc_a_avx_def
    volk_32fc_x2_dot_prod_32fc_u_avx_fma_def volk_32fc_x2_dot_prod_32fc_a_avx_fma_def
  by simp

theorem dot_prod_stores_witness:
  "2 * unat (3 :: uint) \<le> length [0x3F800000, 0, 0, 0, 0, 0 :: float]
   \<and> (\<exists>mem. volk_32fc_x2_dot_prod_32fc_neon (0, 0) [0x3F800000, 0, 0, 0, 0, 0]
                [0x3F800000, 0, 0, 0, 0, 0] 3 = Some mem
          \<and> length (writes mem) = 4)"
  using dot_prod_stores [of 3 "[0x3F800000, 0, 0, 0, 0, 0]" "[0x3F800000, 0, 0, 0, 0, 0]" "(0, 0)"]
  by simp

text \<open>
  Claim C5.  With \<open>num_points = 0\<close> every dot product kernel stores the complex zero
  \<open>(+0, +0)\<close> to \<^verbatim>\<open>*result\<close>, every deinterleave kernel writes no output element, and
  no kernel reads an element of an input buffer, whatever the buffers hold (they may be
  empty).
\<close>

theorem zero_points_identity:
  "volk_32fc_x2_dot_prod_32fc_generic result input taps 0
     = Some \<lparr>result_cell = c_zero, writes = [c_zero], reads = []\<rparr>
   \<and> list_all (\<lambda>v. v result input taps 0
                  = Some \<lparr>result_cell = c_zero, writes = [c_zero], reads = []\<rparr>)
       dot_prod_variants
   \<and> volk_32fc_s32f_deinterleave_real_16i_generic iBuffer complexVector scalar 0
     = Some (deint_init iBuffer)
   \<and> volk_32fc_s32f_deinterleave_real_16i_a_sse iBuffer complexVector scalar 0
     = Some (deint_init iBuffer)
   \<and> volk_32fc_s32f_deinterleave_real_16i_a_avx2 iBuffer complexVector scalar 0
     = Some (deint_init iBuffer)
   \<and> volk_32fc_s32f_deinterleave_real_16i_u_avx2 iBuffer complexVector scalar 0
     = Some (deint_init iBuffer)"
  by (simp only: zero_points zero_points_deinterleave simp_thms)

text \<open>
  Claim C6.  For every \<open>i < num_points\<close>, the generic kernel writes to \<open>iBuffer[i]\<close> the
  value \<^verbatim>\<open>(int16_t)rintf(x * scalar)\<close> of the real component \<open>x\<close> of \<open>complexVector[i]\<close>
  (the float at offset \<open>2 * i\<close>):
  the product \<open>p = x * scalar\<close> is the binary32 nearest to the exact product of the two
  numbers, ties to even, when \<open>x\<close>, \<open>scalar\<close> and \<open>p\<close> are finite; and the element written,
  read as a signed 16-bit integer, is the integer nearest to \<open>p\<close>, a tie going to the even
  integer, when \<open>p\<close> is finite and that integer is one of \<open>-32768, ..., 32767\<close>.  (Beyond
  this range C leaves the cast undefined.)  The buffers hold the \<open>num_points\<close> outputs and
  the floats up to the last real component.  With \<open>scalar = 0.5\<close>, the samples 3, 5 and -7
  give the products 1.5, 2.5 and -3.5 and the outputs 2, 2 and -4.
\<close>

theorem generic_writes_rounded_scaled_real:
  assumes "i < unat num_points" "unat num_points \<le> length iBuffer"
    and "2 * unat num_points - 1 \<le> length complexVector"
  shows "\<exists>s p. volk_32fc_s32f_deinterleave_real_16i_generic iBuffer complexVector scalar num_points
              = Some s
           \<and> p = fmul (complexVector ! (2 * i)) scalar
           \<and> iBuf s ! i = int16_of_float (rintf p)
           \<and> (f_finite (complexVector ! (2 * i)) \<and> f_finite scalar \<and> f_finite p \<longrightarrow>
                nearest_binary32 (f_val (complexVector ! (2 * i)) * f_val scalar) p)
           \<and> (f_finite p \<and> - 32768 \<le> round_half_even (f_val p) \<and> round_half_even (f_val p) \<le> 32767 \<longrightarrow>
                sint (iBuf s ! i) = round_half_even (f_val p))"
  using assms
  by (simp add: generic_run nth_append scalar_formula_def fmul_nearest scalar_cast_rintf)

theorem generic_writes_rounded_scaled_real_witness:
  "\<exists>s. volk_32fc_s32f_deinterleave_real_16i_generic [0, 0, 0]
          [0x40400000, 0, 0x40A00000, 0, 0xC0E00000, 0] 0x3F000000 3 = Some s
     \<and> sint (iBuf s ! 0) = 2 \<and> sint (iBuf s ! 1) = 2 \<and> sint (iBuf s ! 2) = - 4"
proof -
  have v: "f_finite (fmul 0x40400000 0x3F000000)"
    "round_half_even (f_val (fmul 0x40400000 0x3F000000)) = 2"
    "f_finite (fmul 0x40A00000 0x3F000000)"
    "round_half_even (f_val (fmul 0x40A00000 0x3F000000)) = 2"
    "f_finite (fmul 0xC0E00000 0x3F000000)"
    "round_half_even (f_val (fmul 0xC0E00000 0x3F000000)) = - 4"
    by (simp_all add: f_finite_def f_val_def round_half_even_def float_eval)
  show ?thesis
    using generic_writes_rounded_scaled_real [of 0 3 "[0, 0, 0]"
        "[0x40400000, 0, 0x40A00000, 0, 0xC0E00000, 0]" "0x3F000000"]
      generic_writes_rounded_scaled_real [of 1 3 "[0, 0, 0]"
        "[0x40400000, 0, 0x40A00000, 0, 0xC0E00000, 0]" "0x3F000000"]
      generic_writes_rounded_scaled_real [of 2 3 "[0, 0, 0]"
        "[0x40400000, 0, 0x40A00000, 0, 0xC0E00000, 0]" "0x3F000000"]
    by (auto simp add: v)
qed

text \<open>
  Claim C7.  Every SIMD kernel processes each of the \<open>num_points\<close> samples exactly once.
  The aligned SSE3 dot product kernel does not when \<open>num_points * 8\<close> overflows 32 bits:
  with \<open>num_points = 2^29\<close> its main loop bound \<open>(num_points * 8) >> 4\<close> is 0 and
  \<open>num_points\<close> is even, so it reads no sample at all and stores \<open>(+0, +0)\<close>, whatever
  the buffers hold.
\<close>

theorem a_sse3_skips_all_samples_at_2_29:
  "volk_32fc_x2_dot_prod_32fc_a_sse3 result input taps 0x20000000
     = Some \<lparr>result_cell = c_zero, writes = [c_zero], reads = []\<rparr>"
  by (simp add: volk_32fc_x2_dot_prod_32fc_a_sse3_def dot_prod_finish for_loop_stop
      cadd_zero_zero fadd_zero_zero c_zero_def cadd_def)

text \<open>
  Claim C8.  Every deinterleave kernel writes exactly the first \<open>num_points\<close> output
  elements and reads exactly \<open>2 * num_points\<close> floats.  The generic kernel reads less:
  for one sample it reads the float at offset 0 only, never the imaginary part.
\<close>

theorem generic_reads_counterexample:
  "map_option rd_log
     (volk_32fc_s32f_deinterleave_real_16i_generic [0] [0x3FC00000, 0x40000000] 0x3F800000 1)
   = Some [0]"
  by (simp add: generic_run)

text \<open>
  Claim C8, amended.  On buffers that hold \<open>num_points\<close> samples, every deinterleave
  kernel writes the output elements \<open>0, ..., num_points - 1\<close> once each and leaves the
  buffer's length and its other elements as they were.  The generic kernel reads the
  \<open>num_points\<close> real components, at the even offsets below \<open>2 * num_points\<close>; each
  SIMD kernel reads all the floats of its full blocks and the real components of the
  remaining samples.
\<close>

theorem deinterleave_frame_and_reads:
  assumes "unat num_points \<le> length iBuffer" "2 * unat num_points \<le> length complexVector"
  shows "(\<exists>s. volk_32fc_s32f_deinterleave_real_16i_generic iBuffer complexVector scalar num_points
               = Some s
            \<and> deint_frame iBuffer (unat num_points) s
            \<and> rd_log s = map (\<lambda>i. 2 * i) [0..<unat num_points])
       \<and> (\<exists>s. volk_32fc_s32f_deinterleave_real_16i_a_sse iBuffer complexVector scalar num_points
               = Some s
            \<and> deint_frame iBuffer (unat num_points) s
            \<and> rd_log s = [0..<8 * (unat num_points div 4)]
                 @ map (\<lambda>i. 2 * i) [4 * (unat num_points div 4)..<unat num_points])
       \<and> (\<exists>s. volk_32fc_s32f_deinterleave_real_16i_a_avx2 iBuffer complexVector scalar num_points
               = Some s
            \<and> deint_frame iBuffer (unat num_points) s
            \<and> rd_log s = [0..<16 * (unat num_points div 8)]
                 @ map (\<lambda>i. 2 * i) [8 * (unat num_points div 8)..<unat num_points])
       \<and> (\<exists>s. volk_32fc_s32f_deinterleave_real_16i_u_avx2 iBuffer complexVector scalar num_points
               = Some s
            \<and> deint_frame iBuffer (unat num_points) s
            \<and> rd_log s = [0..<16 * (unat num_points div 8)]
                 @ map (\<lambda>i. 2 * i) [8 * (unat num_points div 8)..<unat num_points])"
proof -
  have g: "2 * unat num_points - 1 \<le> length complexVector" using assms(2) by simp
  have m: "8 * (unat num_points div 8) + (unat num_points - 8 * (unat num_points div 8)) = unat num_points"
    by simp
  show ?thesis
    using assms
    by (simp add: generic_run [OF assms(1) g] a_sse_run a_avx2_run u_avx2_run deint_frame_def m)
qed

theorem deinterleave_frame_and_reads_witness:
  "\<exists>s. volk_32fc_s32f_deinterleave_real_16i_generic [0, 7] [0x3FC00000, 0x40000000] 0x3F800000 1
           = Some s \<and> deint_frame [0, 7] 1 s \<and> rd_log s = [0]"
  using deinterleave_frame_and_reads [of 1 "[0, 7]" "[0x3FC00000, 0x40000000]" "0x3F800000"]
  by simp

text \<open>
  Claim C9.  Two calls of the same deinterleave kernel on inputs with the same real
  components, the same scalar and the same \<open>num_points\<close> leave the same output buffer:
  the imaginary components do not matter.
\<close>

theorem deinterleave_ignores_imaginary_parts:
  assumes "unat num_points \<le> length iBuffer"
    and "2 * unat num_points \<le> length cv" "2 * unat num_points \<le> length cv'"
    and "\<forall>i < unat num_points. cv ! (2 * i) = cv' ! (2 * i)"
  shows "(\<exists>s s'. volk_32fc_s32f_deinterleave_real_16i_generic iBuffer cv scalar num_points = Some s
            \<and> volk_32fc_s32f_deinterleave_real_16i_generic iBuffer cv' scalar num_points = Some s'
            \<and> iBuf s = iBuf s')
       \<and> (\<exists>s s'. volk_32fc_s32f_deinterleave_real_16i_a_sse iBuffer cv scalar num_points = Some s
            \<and> volk_32fc_s32f_deinterleave_real_16i_a_sse iBuffer cv' scalar num_points = Some s'
            \<and> iBuf s = iBuf s')
       \<and> (\<exists>s s'. volk_32fc_s32f_deinterleave_real_16i_a_avx2 iBuffer cv scalar num_points = Some s
            \<and> volk_32fc_s32f_deinterleave_real_16i_a_avx2 iBuffer cv' scalar num_points = Some s'
            \<and> iBuf s = iBuf s')
       \<and> (\<exists>s s'. volk_32fc_s32f_deinterleave_real_16i_u_avx2 iBuffer cv scalar num_points = Some s
            \<and> volk_32fc_s32f_deinterleave_real_16i_u_avx2 iBuffer cv' scalar num_points = Some s'
            \<and> iBuf s = iBuf s')"
proof -
  have g: "2 * unat num_points - 1 \<le> length cv" "2 * unat num_points - 1 \<le> length cv'"
    using assms(2,3) by simp_all
  have e: "map (\<lambda>i. f (cv ! (2 * i))) [a..<b] = map (\<lambda>i. f (cv' ! (2 * i))) [a..<b]"
    if "b \<le> unat num_points" for f :: "float \<Rightarrow> int16_t" and a b
    using assms(4) that by simp
  have m: "8 * (unat num_points div 8) \<le> unat num_points" by simp
  show ?thesis
    using assms(1-3)
    by (simp add: generic_run [OF assms(1)] g a_sse_run a_avx2_run u_avx2_run e m)
qed

theorem deinterleave_ignores_imaginary_parts_witness:
  "\<exists>s s'. volk_32fc_s32f_deinterleave_real_16i_a_avx2 [0] [0x3FC00000, 0x40000000] 0x3F800000 1 = Some s
            \<and> volk_32fc_s32f_deinterleave_real_16i_a_avx2 [0] [0x3FC00000, 0x3F800000] 0x3F800000 1 = Some s'
            \<and> iBuf s = iBuf s'"
proof -
  have h: "\<forall>i < unat (1 :: uint). [0x3FC00000, 0x40000000 :: float] ! (2 * i) = [0x3FC00000, 0x3F800000] ! (2 * i)"
    by simp
  show ?thesis
    using deinterleave_ignores_imaginary_parts [of 1 "[0]" "[0x3FC00000, 0x40000000]"
        "[0x3FC00000, 0x3F800000]" "0x3F800000", OF _ _ _ h]
    by simp
qed

text \<open>
  Claim C10.  The main loop bound of the aligned SSE3 kernel is
  \<open>((num_points * 8) mod 2^32) div 16\<close>; it is the bound \<open>num_points div 2\<close> of the
  unaligned kernel if and only if \<open>num_points < 2^29\<close>; and for such \<open>num_points\<close> the
  two kernels return the same memory on the same inputs.
\<close>

theorem a_sse3_loop_bound:
  "unat (a_sse3_halfPoints num_points) = (unat num_points * 8 mod 2 ^ 32) div 16
   \<and> ((a_sse3_halfPoints num_points = u_sse3_halfPoints num_points) = (unat num_points < 2 ^ 29))
   \<and> (unat num_points < 2 ^ 29 \<longrightarrow>
        volk_32fc_x2_dot_prod_32fc_a_sse3 result input taps num_points
          = volk_32fc_x2_dot_prod_32fc_u_sse3 result input taps num_points)"
proof -
  have "volk_32fc_x2_dot_prod_32fc_a_sse3 result input taps num_points
          = volk_32fc_x2_dot_prod_32fc_u_sse3 result input taps num_points"
    if "unat num_points < 2 ^ 29"
    using that halfPoints_agree_iff [of num_points]
    by (simp add: volk_32fc_x2_dot_prod_32fc_a_sse3_def volk_32fc_x2_dot_prod_32fc_u_sse3_def)
  then show ?thesis
    using unat_a_sse3_halfPoints [of num_points] halfPoints_agree_iff [of num_points] by blast
qed

theorem a_sse3_loop_bound_witness:
  "unat (3 :: uint) < 2 ^ 29
   \<and> volk_32fc_x2_dot_prod_32fc_a_sse3 (0, 0) [0x3F800000, 0, 0, 0, 0, 0] [0x3F800000, 0, 0, 0, 0, 0] 3
       = volk_32fc_x2_dot_prod_32fc_u_sse3 (0, 0) [0x3F800000, 0, 0, 0, 0, 0] [0x3F800000, 0, 0, 0, 0, 0] 3"
  using a_sse3_loop_bound [of 3 "(0, 0)" "[0x3F800000, 0, 0, 0, 0, 0]" "[0x3F800000, 0, 0, 0, 0, 0]"]
  by simp

end
